theory Spec2Isabelle
  imports Main "HOL-Library.Sublist"
begin

section \<open>Python strings\<close>

text \<open>
  The program is \<^verbatim>\<open>app.py\<close>. A Python \<^verbatim>\<open>str\<close> is modelled as a \<^typ>\<open>string\<close>, each
  \<^typ>\<open>char\<close> standing for the code point of the same number: the model covers the texts
  whose code points are below 256. The tables below (white space, line boundaries, letter
  case) are Python's, cut down to that range.
\<close>

abbreviation bsl :: char where "bsl \<equiv> CHR 0x5C"
abbreviation LF :: char where "LF \<equiv> CHR 0x0A"
abbreviation CR :: char where "CR \<equiv> CHR 0x0D"

text \<open>\<^verbatim>\<open>str.isspace\<close> on one character; the same test decides \<^verbatim>\<open>\s\<close> in \<^verbatim>\<open>re\<close>.\<close>

definition isspace :: "char \<Rightarrow> bool" where
  "isspace c \<longleftrightarrow> c \<in> set [CHR 0x09, CHR 0x0A, CHR 0x0B, CHR 0x0C, CHR 0x0D,
     CHR 0x1C, CHR 0x1D, CHR 0x1E, CHR 0x1F, CHR 0x20, CHR 0x85, CHR 0xA0]"

text \<open>\<^verbatim>\<open>s.strip(chars)\<close> and \<^verbatim>\<open>s.strip()\<close>.\<close>

definition strip_chars :: "string \<Rightarrow> string \<Rightarrow> string" where
  "strip_chars cs s = rev (dropWhile (\<lambda>c. c \<in> set cs) (rev (dropWhile (\<lambda>c. c \<in> set cs) s)))"

definition strip :: "string \<Rightarrow> string" where
  "strip s = rev (dropWhile isspace (rev (dropWhile isspace s)))"

text \<open>\<^verbatim>\<open>s.startswith(p)\<close>.\<close>

definition startswith :: "string \<Rightarrow> string \<Rightarrow> bool" where
  "startswith s p \<longleftrightarrow> take (length p) s = p"

text \<open>
  \<^verbatim>\<open>s.splitlines()\<close>: the line boundaries are \<^verbatim>\<open>\n\<close>, \<^verbatim>\<open>\r\<close>, \<^verbatim>\<open>\r\n\<close>, \<^verbatim>\<open>\v\<close>, \<^verbatim>\<open>\f\<close>,
  \<^verbatim>\<open>\x1c\<close>, \<^verbatim>\<open>\x1d\<close>, \<^verbatim>\<open>\x1e\<close> and \<^verbatim>\<open>\x85\<close>; the boundaries are not kept, and no empty
  last line is produced.
\<close>

definition is_linebreak :: "char \<Rightarrow> bool" where
  "is_linebreak c \<longleftrightarrow> c \<in> set [CHR 0x0A, CHR 0x0B, CHR 0x0C, CHR 0x0D,
     CHR 0x1C, CHR 0x1D, CHR 0x1E, CHR 0x85]"

fun splitlines_from :: "string \<Rightarrow> string \<Rightarrow> string list" where
  "splitlines_from cur [] = (if cur = [] then [] else [cur])"
| "splitlines_from cur [c] =
     (if is_linebreak c then [cur] else [cur @ [c]])"
| "splitlines_from cur (c # d # cs) =
     (if c = CR \<and> d = LF then cur # splitlines_from [] cs
      else if is_linebreak c then cur # splitlines_from [] (d # cs)
      else splitlines_from (cur @ [c]) (d # cs))"

definition splitlines :: "string \<Rightarrow> string list" where
  "splitlines s = splitlines_from [] s"

text \<open>\<^verbatim>\<open>sep.join(xs)\<close>.\<close>

fun join :: "string \<Rightarrow> string list \<Rightarrow> string" where
  "join sep [] = []"
| "join sep [x] = x"
| "join sep (x # y # ys) = x @ sep @ join sep (y # ys)"

text \<open>\<^verbatim>\<open>s.split(d)\<close> for a separator of one character; the result is never empty.\<close>

fun split_from :: "char \<Rightarrow> string \<Rightarrow> string \<Rightarrow> string list" where
  "split_from d cur [] = [cur]"
| "split_from d cur (c # cs) =
     (if c = d then cur # split_from d [] cs else split_from d (cur @ [c]) cs)"

definition split_on :: "char \<Rightarrow> string \<Rightarrow> string list" where
  "split_on d s = split_from d [] s"


section \<open>Regular expressions\<close>

text \<open>
  Python's \<^verbatim>\<open>re\<close> is a backtracking matcher: among the ways a pattern can match at a
  position it takes the first in the order given by the pattern (the left alternative
  before the right one, a greedy repetition longest first, a lazy one shortest first).
  The model keeps that order: \<open>run r (s, g)\<close> is the list of all the ways \<open>r\<close> matches
  a prefix of \<open>s\<close>, first choice first, each given by the text left over and the groups
  captured so far.

  The patterns of \<^verbatim>\<open>app.py\<close> repeat single characters only, so a repetition is over an
  \<open>atom\<close>. Under \<^verbatim>\<open>re.IGNORECASE\<close> a letter of the pattern matches both its cases
  (\<open>ChrI\<close>, \<open>LitI\<close>).
\<close>

definition lower :: "char \<Rightarrow> char" where
  "lower c =
     (case map_of (zip ''ABCDEFGHIJKLMNOPQRSTUVWXYZ'' ''abcdefghijklmnopqrstuvwxyz'') c of
        Some l \<Rightarrow> l | None \<Rightarrow> c)"

datatype atom =
    Chr char  \<comment> \<open>a literal character\<close>
  | ChrI char  \<comment> \<open>a literal character, either case\<close>
  | OneOf "char list"  \<comment> \<open>a class \<^verbatim>\<open>[...]\<close>\<close>
  | Space  \<comment> \<open>\<^verbatim>\<open>\s\<close>\<close>
  | Dot  \<comment> \<open>\<^verbatim>\<open>.\<close>: any character but the newline\<close>
  | DotAll  \<comment> \<open>\<^verbatim>\<open>.\<close> under \<^verbatim>\<open>re.S\<close>: any character\<close>

fun atom_ok :: "atom \<Rightarrow> char \<Rightarrow> bool" where
  "atom_ok (Chr a) c = (c = a)"
| "atom_ok (ChrI a) c = (lower c = lower a)"
| "atom_ok (OneOf as) c = (c \<in> set as)"
| "atom_ok Space c = isspace c"
| "atom_ok Dot c = (c \<noteq> LF)"
| "atom_ok DotAll c = True"

datatype rx =
    Eps  \<comment> \<open>the empty pattern\<close>
  | One atom
  | Lit string  \<comment> \<open>a run of literal characters\<close>
  | LitI string  \<comment> \<open>the same under \<^verbatim>\<open>re.IGNORECASE\<close>\<close>
  | Rep atom nat "nat option" bool
      \<comment> \<open>\<open>Rep a lo hi greedy\<close>: \<^verbatim>\<open>a{lo,hi}\<close>, with \<open>hi = None\<close> for no upper bound;
          \<^verbatim>\<open>*\<close> is \<open>Rep a 0 None True\<close>, \<^verbatim>\<open>+\<close> is \<open>Rep a 1 None True\<close>, \<^verbatim>\<open>?\<close> is
          \<open>Rep a 0 (Some 1) True\<close>, \<^verbatim>\<open>*?\<close> is \<open>Rep a 0 None False\<close>\<close>
  | Seq rx rx
  | Alt rx rx  \<comment> \<open>\<^verbatim>\<open>p|q\<close>\<close>
  | Grp nat rx  \<comment> \<open>the capturing group of that number\<close>
  | Ahead rx  \<comment> \<open>\<^verbatim>\<open>(?=p)\<close>\<close>
  | Eos  \<comment> \<open>\<^verbatim>\<open>$\<close> without \<^verbatim>\<open>re.M\<close>: the end of the text, or just before a last newline\<close>

type_synonym groups = "(nat \<times> string) list"
type_synonym mstate = "string \<times> groups"

text \<open>The texts left after 0, 1, 2, ... leading characters that the atom accepts.\<close>

fun spans :: "atom \<Rightarrow> string \<Rightarrow> string list" where
  "spans a [] = [[]]"
| "spans a (c # cs) = (c # cs) # (if atom_ok a c then spans a cs else [])"

fun run :: "rx \<Rightarrow> mstate \<Rightarrow> mstate list" where
  "run Eps st = [st]"
| "run (One a) (s, g) =
     (case s of [] \<Rightarrow> [] | c # cs \<Rightarrow> if atom_ok a c then [(cs, g)] else [])"
| "run (Lit l) (s, g) = (if startswith s l then [(drop (length l) s, g)] else [])"
| "run (LitI l) (s, g) =
     (if map lower (take (length l) s) = map lower l then [(drop (length l) s, g)] else [])"
| "run (Rep a lo hi greedy) (s, g) =
     (let cand = (case hi of None \<Rightarrow> drop lo (spans a s)
                   | Some h \<Rightarrow> take (Suc h - lo) (drop lo (spans a s)))
      in map (\<lambda>r. (r, g)) (if greedy then rev cand else cand))"
| "run (Seq p q) st = concat (map (run q) (run p st))"
| "run (Alt p q) st = run p st @ run q st"
| "run (Grp n p) (s, g) =
     map (\<lambda>(r, g'). (r, (n, take (length s - length r) s) # g')) (run p (s, g))"
| "run (Ahead p) st = (case run p st of [] \<Rightarrow> [] | _ \<Rightarrow> [st])"
| "run Eos (s, g) = (if s = [] \<or> s = [LF] then [(s, g)] else [])"

text \<open>A pattern written as a sequence, and as a list of alternatives.\<close>

fun cat :: "rx list \<Rightarrow> rx" where
  "cat [] = Eps"
| "cat (r # rs) = Seq r (cat rs)"

fun alts :: "rx \<Rightarrow> rx list \<Rightarrow> rx" where
  "alts r [] = r"
| "alts r (q # qs) = Alt r (alts q qs)"

text \<open>
  \<^verbatim>\<open>pattern.match(s)\<close>: the first way the pattern matches at the start of \<open>s\<close>, if any.
  The patterns matched this way begin with \<^verbatim>\<open>^\<close>, which holds at the start, where
  \<^verbatim>\<open>match\<close> tries them.
\<close>

definition re_match :: "rx \<Rightarrow> string \<Rightarrow> mstate option" where
  "re_match r s = (case run r (s, []) of [] \<Rightarrow> None | m # _ \<Rightarrow> Some m)"

text \<open>\<^verbatim>\<open>m.group(n)\<close>, for a group that took part in the match.\<close>

definition group :: "groups \<Rightarrow> nat \<Rightarrow> string" where
  "group g n = (case map_of g n of Some t \<Rightarrow> t | None \<Rightarrow> [])"

text \<open>\<^verbatim>\<open>re.search\<close>: the leftmost position with a match; the result is the text matched
  and the groups.\<close>

fun re_search :: "rx \<Rightarrow> string \<Rightarrow> (string \<times> groups) option" where
  "re_search r [] = (case re_match r [] of None \<Rightarrow> None | Some (rest, g) \<Rightarrow> Some ([], g))"
| "re_search r (c # cs) =
     (case re_match r (c # cs) of
        None \<Rightarrow> re_search r cs
      | Some (rest, g) \<Rightarrow> Some (take (length (c # cs) - length rest) (c # cs), g))"

text \<open>
  \<^verbatim>\<open>re.split\<close> and \<^verbatim>\<open>re.sub\<close> with the empty replacement, for patterns without groups
  whose matches are never empty (every pattern that \<^verbatim>\<open>app.py\<close> splits or substitutes
  with consumes a character): the text is scanned from the left, a match ends the current
  piece (or is deleted) and the scan goes on after it. A position with an empty match is
  passed over like one with no match.
\<close>

function re_split_from :: "rx \<Rightarrow> string \<Rightarrow> string \<Rightarrow> string list" where
  "re_split_from r cur [] = [cur]"
| "re_split_from r cur (c # cs) =
     (case re_match r (c # cs) of
        None \<Rightarrow> re_split_from r (cur @ [c]) cs
      | Some (rest, g) \<Rightarrow>
          if length rest < length (c # cs) then cur # re_split_from r [] rest
          else re_split_from r (cur @ [c]) cs)"
  by pat_completeness auto
termination
  by (relation "measure (\<lambda>(r, cur, s). length s)") auto

definition re_split :: "rx \<Rightarrow> string \<Rightarrow> string list" where
  "re_split r s = re_split_from r [] s"

function re_sub_empty :: "rx \<Rightarrow> string \<Rightarrow> string" where
  "re_sub_empty r [] = []"
| "re_sub_empty r (c # cs) =
     (case re_match r (c # cs) of
        None \<Rightarrow> c # re_sub_empty r cs
      | Some (rest, g) \<Rightarrow>
          if length rest < length (c # cs) then re_sub_empty r rest
          else c # re_sub_empty r cs)"
  by pat_completeness auto
termination
  by (relation "measure (\<lambda>(r, s). length s)") auto

section \<open>The Fallback Typesetter\<close>

text \<open>
  \<^verbatim>\<open>naive_md_to_latex\<close>: the loop appends one output line per input line to \<^verbatim>\<open>out\<close>,
  the branches tried in the order of the source.
\<close>

fun naive_loop :: "string list \<Rightarrow> string list \<Rightarrow> string list" where
  "naive_loop out [] = out"
| "naive_loop out (line # rest) =
     (if startswith line ''# '' then
        naive_loop (out @ [bsl # ''section{'' @ drop 2 line @ ''}'']) rest
      else if startswith line ''## '' then
        naive_loop (out @ [bsl # ''subsection{'' @ drop 3 line @ ''}'']) rest
      else if startswith line ''### '' then
        naive_loop (out @ [bsl # ''subsubsection{'' @ drop 4 line @ ''}'']) rest
      else naive_loop (out @ [line]) rest)"

definition naive_md_to_latex :: "string \<Rightarrow> string" where
  "naive_md_to_latex text = join [LF] (naive_loop [] (splitlines text))"


section \<open>The External Converter Adapter\<close>

text \<open>The exceptions that the modelled code can raise.\<close>

datatype py_error =
    ValueError | KeyError | OSError | UnicodeEncodeError | UnicodeDecodeError | TemplateError

text \<open>
  What becomes of a child process started by \<^verbatim>\<open>subprocess.run\<close> with \<^verbatim>\<open>text=True\<close>: the
  program cannot be started (the path is a directory, or a file that is not executable:
  \<^verbatim>\<open>OSError\<close>), the input cannot be encoded for its pipe, or the process runs and exits
  with a return code, its standard output and standard error given as text where their
  bytes can be decoded, and as \<open>None\<close> where they cannot.
\<close>

datatype process =
    LaunchFails
  | InputUnencodable
  | Exited int "string option" "string option"

text \<open>
  What \<^verbatim>\<open>find_pandoc\<close> and \<^verbatim>\<open>markdown_to_latex\<close> read from the machine they run on: the
  environment variables, which paths exist, \<^verbatim>\<open>shutil.which\<close>, \<^verbatim>\<open>os.name\<close>, the
  expansion of variables and of the home directory in a path, \<^verbatim>\<open>str(Path(p))\<close>, and what
  becomes of the child process for a command line and a standard input.
\<close>

record system =
  environ :: "string \<rightharpoonup> string"
  path_exists :: "string \<Rightarrow> bool"
  path_str :: "string \<Rightarrow> string"
  which :: "string \<Rightarrow> string option"
  os_name :: string
  expandvars :: "string \<Rightarrow> string"
  expanduser :: "string \<Rightarrow> string"
  child_process :: "string list \<Rightarrow> string \<Rightarrow> process"

text \<open>
  \<^verbatim>\<open>subprocess.run(cmd, input=..., text=True, stdout=PIPE, stderr=PIPE)\<close>: it raises when
  the program cannot be started, when the input cannot be encoded, and when the output
  or the error stream cannot be decoded, whatever the return code; otherwise it returns
  the return code and the two texts. The call in \<^verbatim>\<open>markdown_to_latex\<close> is not inside a
  \<^verbatim>\<open>try\<close>.
\<close>

definition subprocess_run ::
    "system \<Rightarrow> string list \<Rightarrow> string \<Rightarrow> py_error + int \<times> string \<times> string" where
  "subprocess_run sys cmd inp =
     (case child_process sys cmd inp of
        LaunchFails \<Rightarrow> Inl OSError
      | InputUnencodable \<Rightarrow> Inl UnicodeEncodeError
      | Exited returncode out err \<Rightarrow>
          (case out of
             None \<Rightarrow> Inl UnicodeDecodeError
           | Some stdout \<Rightarrow>
               (case err of
                  None \<Rightarrow> Inl UnicodeDecodeError
                | Some stderr \<Rightarrow> Inr (returncode, stdout, stderr))))"

fun env_override :: "system \<Rightarrow> string list \<Rightarrow> string option" where
  "env_override sys [] = None"
| "env_override sys (key # keys) =
     (case environ sys key of
        None \<Rightarrow> env_override sys keys
      | Some p \<Rightarrow> if p \<noteq> [] \<and> path_exists sys p then Some (path_str sys p)
                  else env_override sys keys)"

fun first_existing :: "system \<Rightarrow> string list \<Rightarrow> string option" where
  "first_existing sys [] = None"
| "first_existing sys (c # cs) =
     (if c \<noteq> [] \<and> path_exists sys c then Some c else first_existing sys cs)"

definition candidates :: "system \<Rightarrow> string list" where
  "candidates sys =
     (if os_name sys = ''nt'' then
        [''C:'' @ bsl # ''Program Files'' @ bsl # ''Pandoc'' @ bsl # ''pandoc.exe'',
         expandvars sys (''%LOCALAPPDATA%'' @ bsl # ''Pandoc'' @ bsl # ''pandoc.exe''),
         expanduser sys (''~'' @ bsl # ''AppData'' @ bsl # ''Local'' @ bsl # ''Pandoc''
                          @ bsl # ''pandoc.exe'')]
      else [''/usr/local/bin/pandoc'', ''/usr/bin/pandoc'', ''/opt/homebrew/bin/pandoc''])"

definition find_pandoc :: "system \<Rightarrow> string option" where
  "find_pandoc sys =
     (case env_override sys [''PANDOC'', ''PANDOC_PATH''] of
        Some p \<Rightarrow> Some p
      | None \<Rightarrow>
          (case which sys ''pandoc'' of
             Some w \<Rightarrow> if w \<noteq> [] then Some w else first_existing sys (candidates sys)
           | None \<Rightarrow> first_existing sys (candidates sys)))"

text \<open>
  \<^verbatim>\<open>markdown_to_latex\<close>; \<^verbatim>\<open>not pandoc\<close> holds of \<^verbatim>\<open>None\<close> and of the empty string. An
  exception of \<^verbatim>\<open>subprocess.run\<close> leaves the function (\<open>Inl\<close>).
\<close>

definition markdown_to_latex :: "system \<Rightarrow> string \<Rightarrow> py_error + string" where
  "markdown_to_latex sys md_text =
     (case find_pandoc sys of
        None \<Rightarrow> Inr (naive_md_to_latex md_text)
      | Some pandoc \<Rightarrow>
          if pandoc = [] then Inr (naive_md_to_latex md_text)
          else (case subprocess_run sys [pandoc, ''-f'', ''gfm'', ''-t'', ''latex''] md_text of
                  Inl e \<Rightarrow> Inl e
                | Inr (returncode, stdout, stderr) \<Rightarrow>
                    if returncode \<noteq> 0 then Inr (naive_md_to_latex md_text)
                    else Inr stdout))"

section \<open>The Metadata Extractor\<close>

text \<open>
  The patterns of \<^verbatim>\<open>parse_sections_from_markdown\<close>.
  \<^verbatim>\<open>abs_re\<close> is \<^verbatim>\<open>^#{1,6}\s*abstract\s*$\<close> under \<^verbatim>\<open>re.IGNORECASE\<close>.
  \<^verbatim>\<open>key_re\<close> is \<^verbatim>\<open>^(keywords|index terms)\s*[...]\s*(.+)$\<close> under \<^verbatim>\<open>re.IGNORECASE\<close>; the
  class in the source file holds the colon, the hyphen, and the three characters
  U+00E2, U+20AC, U+201D; of the last three only U+00E2 is below 256, and under
  \<^verbatim>\<open>re.IGNORECASE\<close> it stands for U+00C2 as well.
  The keyword separator is \<^verbatim>\<open>[;,]\s*|,?\s+and\s+\<close>, and the author marker is
  \<^verbatim>\<open>@|University|Institute|College|Department|Dept\.|School|Research|Lab\<close> under \<^verbatim>\<open>re.I\<close>.
\<close>

definition abs_re :: rx where
  "abs_re = cat [Rep (Chr CHR ''#'') 1 (Some 6) True, Rep Space 0 None True,
     LitI ''abstract'', Rep Space 0 None True, Eos]"

definition key_re :: rx where
  "key_re = cat [Grp 1 (Alt (LitI ''keywords'') (LitI ''index terms'')),
     Rep Space 0 None True, One (OneOf [CHR '':'', CHR 0xE2, CHR 0xC2, CHR ''-'']),
     Rep Space 0 None True, Grp 2 (Rep Dot 1 None True), Eos]"

definition kw_split_re :: rx where
  "kw_split_re =
     Alt (cat [One (OneOf '';,''), Rep Space 0 None True])
         (cat [Rep (Chr CHR '','') 0 (Some 1) True, Rep Space 1 None True, Lit ''and'',
               Rep Space 1 None True])"

definition author_marker_re :: rx where
  "author_marker_re = alts (Lit ''@'') [LitI ''University'', LitI ''Institute'',
     LitI ''College'', LitI ''Department'', LitI ''Dept.'', LitI ''School'', LitI ''Research'',
     LitI ''Lab'']"

record meta_guess =
  title :: string
  abstract :: string
  "keywords" :: "string list"
  authors_raw :: string

text \<open>The first loop: the title is taken from the first line that begins with \<^verbatim>\<open># \<close>.\<close>

fun find_title :: "string list \<Rightarrow> string" where
  "find_title [] = []"
| "find_title (ln # lns) =
     (if startswith ln ''# '' then strip (drop 2 ln) else find_title lns)"

text \<open>The keyword list made from \<^verbatim>\<open>m.group(2)\<close>.\<close>

definition split_keywords :: "string \<Rightarrow> string list" where
  "split_keywords rest =
     map (strip_chars '' .'') (filter (\<lambda>k. strip k \<noteq> []) (re_split kw_split_re rest))"

text \<open>
  The body of the second loop, on the variables \<^verbatim>\<open>in_abs\<close>, \<^verbatim>\<open>abs_buf\<close> and
  \<^verbatim>\<open>keywords\<close>. \<^verbatim>\<open>not keywords\<close> holds of the empty list.
\<close>

definition scan_line :: "bool \<times> string list \<times> string list \<Rightarrow> string
    \<Rightarrow> bool \<times> string list \<times> string list" where
  "scan_line st ln =
     (case st of (in_abs, abs_buf, kws) \<Rightarrow>
        if re_match abs_re (strip ln) \<noteq> None then (True, abs_buf, kws)
        else
          let in_abs' = (if in_abs \<and> startswith ln ''#'' then False else in_abs);
              abs_buf' = (if in_abs' then abs_buf @ [strip ln] else abs_buf);
              kws' = (case re_match key_re (strip ln) of
                        None \<Rightarrow> kws
                      | Some (rest, g) \<Rightarrow>
                          if kws = [] then split_keywords (group g 2) else kws)
          in (in_abs', abs_buf', kws'))"

text \<open>The third loop, over the first 20 lines.\<close>

fun possible_loop :: "string list \<Rightarrow> string list \<Rightarrow> string list" where
  "possible_loop possible [] = possible"
| "possible_loop possible (ln # lns) =
     (if startswith ln ''#'' \<or> re_match abs_re ln \<noteq> None \<or> re_match key_re ln \<noteq> None
      then possible_loop possible lns
      else if re_search author_marker_re ln \<noteq> None
      then possible_loop (possible @ [strip ln]) lns
      else possible_loop possible lns)"

definition parse_sections_from_markdown :: "string \<Rightarrow> meta_guess" where
  "parse_sections_from_markdown md_text =
     (let lns = splitlines md_text in
      case foldl scan_line (False, [], []) lns of
        (in_abs, abs_buf, kws) \<Rightarrow>
          \<lparr>title = find_title lns,
           abstract = strip (join '' '' abs_buf),
           keywords = kws,
           authors_raw = join [LF] (take 4 (possible_loop [] (take 20 lns)))\<rparr>)"

section \<open>The Author Block Parser\<close>

text \<open>
  The chunk separator is \<^verbatim>\<open>\n\s*\n|;\s*\<close>. The e-mail pattern is a raw string in which
  every backslash is written twice,
  \<^verbatim>\<open>r"([\\w\\.-]+@[\\w\\.-]+\\.\\w+)"\<close>, so that \<^verbatim>\<open>re\<close> reads each pair as one literal
  backslash: the class holds the backslash, the letter w, the dot and the hyphen, and
  after the second run come a backslash, any character, a backslash and a run of the
  letter w.
\<close>

definition chunk_re :: rx where
  "chunk_re = Alt (cat [Lit [LF], Rep Space 0 None True, Lit [LF]])
                  (cat [Lit '';'', Rep Space 0 None True])"

definition email_re :: rx where
  "email_re = Grp 1 (cat [Rep (OneOf [bsl, CHR ''w'', CHR ''.'', CHR ''-'']) 1 None True,
     Lit ''@'', Rep (OneOf [bsl, CHR ''w'', CHR ''.'', CHR ''-'']) 1 None True,
     Lit [bsl], One Dot, Lit [bsl], Rep (Chr CHR ''w'') 1 None True])"

record author =
  name :: string
  affiliation :: string
  organization :: string
  city_country :: string
  email_or_orcid :: string

text \<open>\<^verbatim>\<open>ch.split(",")[0]\<close>: the list is never empty, so the index is in range.\<close>

definition first_field :: "string \<Rightarrow> string" where
  "first_field ch = (case split_on CHR '','' ch of [] \<Rightarrow> [] | x # xs \<Rightarrow> x)"

fun authors_loop :: "author list \<Rightarrow> string list \<Rightarrow> author list" where
  "authors_loop authors [] = authors"
| "authors_loop authors (ch # chunks) =
     (if strip ch = [] then authors_loop authors chunks
      else
        let email = (case re_search email_re ch of
                       None \<Rightarrow> None | Some (text, g) \<Rightarrow> Some (group g 1))
        in authors_loop
             (authors @ [\<lparr>name = strip (first_field ch), affiliation = strip ch,
                organization = [], city_country = [],
                email_or_orcid = (case email of None \<Rightarrow> [] | Some e \<Rightarrow> e)\<rparr>])
             chunks)"

definition split_authors_blocks :: "string \<Rightarrow> author list" where
  "split_authors_blocks raw =
     (let authors = authors_loop [] (re_split chunk_re (strip raw)) in
      if authors = [] then
        [\<lparr>name = [], affiliation = [], organization = [], city_country = [],
          email_or_orcid = []\<rparr>]
      else authors)"

section \<open>The Body Sanitizer\<close>

text \<open>
  The two patterns of \<^verbatim>\<open>strip_abstract_keywords_from_latex\<close> are raw strings in which
  every backslash is written twice as well:
  \<^verbatim>\<open>r"\\section\\*?\\{[Aa]bstract\\}.*?(?=\\section|\\subsection|\\subsubsection|\\paragraph|\\end\\{document\\}|$)"\<close>
  and the same with \<^verbatim>\<open>[Kk]eywords?.*?\<close> for \<^verbatim>\<open>[Aa]bstract\<close>, both under \<^verbatim>\<open>re.S\<close>.
  \<^verbatim>\<open>re\<close> reads \<^verbatim>\<open>\\section\<close> as a backslash and the word, \<^verbatim>\<open>\\*?\<close> as a lazy run of
  backslashes, \<^verbatim>\<open>\\{\<close> and \<^verbatim>\<open>\\}\<close> as a backslash followed by the brace.
\<close>

definition delim_re :: rx where
  "delim_re = alts (Lit (bsl # ''section'')) [Lit (bsl # ''subsection''),
     Lit (bsl # ''subsubsection''), Lit (bsl # ''paragraph''),
     Lit (bsl # ''end'' @ bsl # ''{document'' @ bsl # ''}''), Eos]"

definition abstract_sec_re :: rx where
  "abstract_sec_re = cat [Lit (bsl # ''section''), Rep (Chr bsl) 0 None False,
     Lit (bsl # ''{''), One (OneOf ''Aa''), Lit (''bstract'' @ bsl # ''}''),
     Rep DotAll 0 None False, Ahead delim_re]"

definition keywords_sec_re :: rx where
  "keywords_sec_re = cat [Lit (bsl # ''section''), Rep (Chr bsl) 0 None False,
     Lit (bsl # ''{''), One (OneOf ''Kk''), Lit ''eyword'',
     Rep (Chr CHR ''s'') 0 (Some 1) True, Rep DotAll 0 None False, Lit (bsl # ''}''),
     Rep DotAll 0 None False, Ahead delim_re]"

definition strip_abstract_keywords_from_latex :: "string \<Rightarrow> string" where
  "strip_abstract_keywords_from_latex latex_body =
     re_sub_empty keywords_sec_re (re_sub_empty abstract_sec_re latex_body)"

section \<open>Generation\<close>

text \<open>
  \<^verbatim>\<open>str(i)\<close> for \<open>i \<ge> 0\<close>, and \<^verbatim>\<open>int(s)\<close>, which raises \<^verbatim>\<open>ValueError\<close> (here
  \<open>None\<close>) unless \<open>s\<close>, without the white space around it, is an optional sign and then
  decimal digits, with single underscores allowed between digits. The white space that
  \<^verbatim>\<open>int\<close> skips is that of \<^verbatim>\<open>str.strip\<close> without the four separators \<^verbatim>\<open>\x1c\<close> to
  \<^verbatim>\<open>\x1f\<close>, and a text of more than 4300 digits is refused (the default limit of the
  interpreter on the conversion of integers).
\<close>

fun str_nat :: "nat \<Rightarrow> string" where
  "str_nat n = (if n < 10 then [''0123456789'' ! n]
                else str_nat (n div 10) @ [''0123456789'' ! (n mod 10)])"

declare str_nat.simps [simp del]

definition is_digit :: "char \<Rightarrow> bool" where
  "is_digit c \<longleftrightarrow> c \<in> set ''0123456789''"

fun valid_digits :: "string \<Rightarrow> bool" where
  "valid_digits [] = False"
| "valid_digits [c] = is_digit c"
| "valid_digits (c # d # cs) =
     (is_digit c \<and> (if d = CHR ''_'' then valid_digits cs else valid_digits (d # cs)))"

definition digits_value :: "string \<Rightarrow> nat" where
  "digits_value ds =
     foldl (\<lambda>acc c. if c = CHR ''_'' then acc else 10 * acc + (of_char c - 48)) 0 ds"

definition is_int_space :: "char \<Rightarrow> bool" where
  "is_int_space c \<longleftrightarrow> c \<in> set [CHR 0x09, CHR 0x0A, CHR 0x0B, CHR 0x0C, CHR 0x0D,
     CHR 0x20, CHR 0x85, CHR 0xA0]"

definition py_int :: "string \<Rightarrow> int option" where
  "py_int s =
     (case rev (dropWhile is_int_space (rev (dropWhile is_int_space s))) of
        [] \<Rightarrow> None
      | c # r \<Rightarrow>
          let ds = (if c = CHR ''-'' \<or> c = CHR ''+'' then r else c # r) in
          if valid_digits ds \<and> length (filter is_digit ds) \<le> 4300
          then Some (if c = CHR ''-'' then - int (digits_value ds) else int (digits_value ds))
          else None)"

text \<open>\<^verbatim>\<open>request.form.get(key, default)\<close>.\<close>

definition form_get :: "(string \<rightharpoonup> string) \<Rightarrow> string \<Rightarrow> string \<Rightarrow> string" where
  "form_get form key dflt = (case form key of None \<Rightarrow> dflt | Some v \<Rightarrow> v)"

record render_context =
  ctx_title :: string
  author_blocks :: "author list"
  ctx_abstract :: string
  ctx_keywords :: "string list"
  body_latex :: string
  bibfile_base :: string

definition author_row :: "(string \<rightharpoonup> string) \<Rightarrow> nat \<Rightarrow> author" where
  "author_row form i =
     (let prefix = ''author_'' @ str_nat i @ ''_'' in
      \<lparr>name = strip (form_get form (prefix @ ''name'') []),
       affiliation = strip (form_get form (prefix @ ''affiliation'') []),
       organization = strip (form_get form (prefix @ ''organization'') []),
       city_country = strip (form_get form (prefix @ ''city_country'') []),
       email_or_orcid = strip (form_get form (prefix @ ''email'') [])\<rparr>)"

text \<open>
  What \<^verbatim>\<open>generate\<close> finds of the job on disk: no output directory; a directory whose
  \<^verbatim>\<open>session.json\<close> or \<^verbatim>\<open>body.md\<close> cannot be read (the read, \<^verbatim>\<open>json.loads\<close> or the
  look-up of \<^verbatim>\<open>"body_md"\<close> raises); or the stored markup.
\<close>

datatype job_files = NoOutputDir | ReadFails py_error | Stored string

text \<open>
  \<^verbatim>\<open>generate\<close> up to the text \<^verbatim>\<open>paper_tex\<close>, in the order of the source: the form is read,
  \<^verbatim>\<open>int\<close> may raise, a job whose output directory is gone is sent back to the start, the
  reading of the job files may raise, the stored markup is converted, which may raise,
  and sanitized, and the context of the template is built. The files written after the
  rendering and the archive are left out.
\<close>

datatype 'a outcome = Raised py_error | SessionExpired | Done 'a

definition generate_context ::
    "system \<Rightarrow> (string \<rightharpoonup> string) \<Rightarrow> job_files \<Rightarrow> render_context outcome" where
  "generate_context sys form job =
     (let title' = strip (form_get form ''title'' []);
          abstract' = strip (form_get form ''abstract'' []);
          keywords' = map strip (filter (\<lambda>k. strip k \<noteq> [])
                        (re_split (One (OneOf '';,'')) (form_get form ''keywords'' [])))
      in case py_int (form_get form ''author_rows'' ''1'') of
           None \<Rightarrow> Raised ValueError
         | Some rows \<Rightarrow>
             let authors = map (author_row form) [0 ..< nat rows] in
             (case job of
                NoOutputDir \<Rightarrow> SessionExpired
              | ReadFails e \<Rightarrow> Raised e
              | Stored body_md \<Rightarrow>
                  (case markdown_to_latex sys body_md of
                     Inl e \<Rightarrow> Raised e
                   | Inr latex \<Rightarrow>
                       Done \<lparr>ctx_title = (if title' = [] then ''Untitled'' else title'),
                             author_blocks = authors,
                             ctx_abstract = abstract',
                             ctx_keywords = keywords',
                             body_latex = strip_abstract_keywords_from_latex latex,
                             bibfile_base = ''refs''\<rparr>)))"

text \<open>
  \<^verbatim>\<open>render_ieee_latex\<close> reads the template \<^verbatim>\<open>ieee_conf_template.tex\<close> and renders it on
  the context. The template file is not among the sources: it is a parameter, a function
  of the context that gives the text or the exception raised by reading, compiling or
  rendering it.
\<close>

definition render_ieee_latex ::
    "(render_context \<Rightarrow> py_error + string) \<Rightarrow> render_context \<Rightarrow> py_error + string" where
  "render_ieee_latex template ctx = template ctx"

definition generate ::
    "system \<Rightarrow> (render_context \<Rightarrow> py_error + string) \<Rightarrow> (string \<rightharpoonup> string) \<Rightarrow> job_files
      \<Rightarrow> string outcome" where
  "generate sys template form job =
     (case generate_context sys form job of
        Raised e \<Rightarrow> Raised e
      | SessionExpired \<Rightarrow> SessionExpired
      | Done ctx \<Rightarrow>
          (case render_ieee_latex template ctx of
             Inl e \<Rightarrow> Raised e
           | Inr paper_tex \<Rightarrow> Done paper_tex))"

text \<open>
  Machines for the examples: one without the converter; one on which the variable
  \<^verbatim>\<open>PANDOC\<close> names a file that exists and cannot be started; and one on which the converter
  is on the search path and exits with status 1 after writing bytes to its error stream
  that cannot be decoded.
\<close>

definition bare_system :: system where
  "bare_system = \<lparr>environ = Map.empty, path_exists = (\<lambda>p. False), path_str = (\<lambda>p. p),
     which = (\<lambda>c. None), os_name = ''posix'', expandvars = (\<lambda>p. p), expanduser = (\<lambda>p. p),
     child_process = (\<lambda>cmd inp. LaunchFails)\<rparr>"

definition unlaunchable_system :: system where
  "unlaunchable_system = bare_system
     \<lparr>environ := [''PANDOC'' \<mapsto> ''/etc/hostname''],
      path_exists := (\<lambda>p. p = ''/etc/hostname'')\<rparr>"

definition undecodable_system :: system where
  "undecodable_system = bare_system
     \<lparr>which := (\<lambda>c. if c = ''pandoc'' then Some ''/usr/bin/pandoc'' else None),
      child_process := (\<lambda>cmd inp. Exited 1 (Some []) None)\<rparr>"

section \<open>Notions used in the statements\<close>

text \<open>The keyword list that one line yields: empty unless the stripped line matches
  \<^verbatim>\<open>key_re\<close>. It is what the loop assigns to \<^verbatim>\<open>keywords\<close> at such a line.\<close>

definition line_keywords :: "string \<Rightarrow> string list" where
  "line_keywords ln =
     (case re_match key_re (strip ln) of
        None \<Rightarrow> []
      | Some (rest, g) \<Rightarrow> split_keywords (group g 2))"

text \<open>The three variables of the second loop.\<close>

definition in_abs_of :: "bool \<times> string list \<times> string list \<Rightarrow> bool" where
  "in_abs_of st = fst st"
definition abs_buf_of :: "bool \<times> string list \<times> string list \<Rightarrow> string list" where
  "abs_buf_of st = fst (snd st)"
definition kws_of :: "bool \<times> string list \<times> string list \<Rightarrow> string list" where
  "kws_of st = snd (snd st)"

text \<open>
  For the Body Sanitizer: a match of a pattern at the start of a text that consumes
  something, given by what is left (\<open>hit\<close>); a text in which the pattern matches
  nowhere (\<open>clean\<close>); the texts at which the lookahead of the two patterns holds
  (\<open>is_delim\<close>); and the headings of the two patterns as they are read by \<^verbatim>\<open>re\<close>.
\<close>

definition hit :: "rx \<Rightarrow> string \<Rightarrow> string option" where
  "hit r s =
     (case re_match r s of
        None \<Rightarrow> None
      | Some (rest, g) \<Rightarrow> if length rest < length s then Some rest else None)"

definition clean :: "rx \<Rightarrow> string \<Rightarrow> bool" where
  "clean r s \<longleftrightarrow> (\<forall>u v. s = u @ v \<longrightarrow> hit r v = None)"

definition is_delim :: "string \<Rightarrow> bool" where
  "is_delim z \<longleftrightarrow>
     startswith z (bsl # ''section'') \<or> startswith z (bsl # ''subsection'')
     \<or> startswith z (bsl # ''subsubsection'') \<or> startswith z (bsl # ''paragraph'')
     \<or> startswith z (bsl # ''end'' @ bsl # ''{document'' @ bsl # ''}'')
     \<or> z = [] \<or> z = [LF]"

definition abstract_head :: "string \<Rightarrow> bool" where
  "abstract_head H \<longleftrightarrow>
     (\<exists>u a. H = bsl # ''section'' @ u @ bsl # ''{'' @ a # ''bstract'' @ bsl # ''}''
        \<and> (\<forall>c \<in> set u. c = bsl) \<and> a \<in> set ''Aa'')"

definition keywords_head :: "string \<Rightarrow> bool" where
  "keywords_head K \<longleftrightarrow>
     (\<exists>u a. K = bsl # ''section'' @ u @ bsl # ''{'' @ a # ''eyword''
        \<and> (\<forall>c \<in> set u. c = bsl) \<and> a \<in> set ''Kk'')"

text \<open>
  What a text that follows a deletion begins with, once the pass is over (\<open>weak_delim\<close>);
  texts with no backslash followed by one of the letters s, p, e (\<open>nobs\<close>); patterns whose
  matches begin with a backslash and s and end where the lookahead holds; and pairs of
  patterns for which a deletion of the second cannot complete a match of the first.
\<close>

definition weak_delim :: "string \<Rightarrow> bool" where
  "weak_delim y \<longleftrightarrow> y = [] \<or> y = [LF] \<or> (\<exists>c z. y = bsl # c # z \<and> c \<in> set ''spe'')"

fun nobs :: "string \<Rightarrow> bool" where
  "nobs (c # d # r) = (\<not> (c = bsl \<and> d \<in> set ''spe'') \<and> nobs (d # r))"
| "nobs [c] = True"
| "nobs [] = True"

definition section_pattern :: "rx \<Rightarrow> bool" where
  "section_pattern r \<longleftrightarrow>
     (\<forall>s rest. hit r s = Some rest \<longrightarrow> is_delim rest)
     \<and> (\<forall>s. hit r s \<noteq> None \<longrightarrow> (\<exists>z. s = bsl # CHR ''s'' # z))"

definition joins_safely :: "rx \<Rightarrow> rx \<Rightarrow> bool" where
  "joins_safely r r' \<longleftrightarrow>
     (\<forall>u x y. u \<noteq> [] \<and> weak_delim y \<and> hit r (u @ y) \<noteq> None \<and> hit r' x \<noteq> None
        \<longrightarrow> hit r (u @ x) \<noteq> None)"

section \<open>Properties of the Fallback Typesetter\<close>

lemma naive_loop_length: "length (naive_loop out ls) = length out + length ls"
  by (induction ls arbitrary: out) auto

lemma naive_loop_prefix: "i < length out \<Longrightarrow> naive_loop out ls ! i = out ! i"
  by (induction ls arbitrary: out) (auto simp: nth_append)

lemma naive_loop_nth:
  "i < length ls \<Longrightarrow>
   naive_loop out ls ! (length out + i) = naive_loop [] [ls ! i] ! 0"
proof (induction ls arbitrary: out i)
  case Nil
  then show ?case by simp
next
  case (Cons l ls)
  show ?case
  proof (cases i)
    case 0
    then show ?thesis by (simp add: naive_loop_prefix)
  next
    case (Suc j)
    with Cons.prems have j: "j < length ls" by simp
    from Cons.IH [OF j, of "naive_loop out [l]"] Suc
    show ?thesis by (simp add: naive_loop_length split: if_splits)
  qed
qed

text \<open>
  Claim C7. The Fallback Typesetter is a total function of the text, given line by line:
  the output is the output lines joined by newlines, one output line for each input line
  and depending on that line alone; a line beginning with \<^verbatim>\<open># \<close> becomes the
  \<^verbatim>\<open>\section\<close> command with the rest of the line as argument, \<^verbatim>\<open>## \<close> gives
  \<^verbatim>\<open>\subsection\<close>, \<^verbatim>\<open>### \<close> gives \<^verbatim>\<open>\subsubsection\<close>, every other line is
  unchanged; the empty text gives the empty text and \<^verbatim>\<open># Intro\<close> gives
  \<^verbatim>\<open>\section{Intro}\<close>.
\<close>

theorem naive_md_to_latex_linewise:
  "\<exists>out. naive_md_to_latex text = join [LF] out
     \<and> length out = length (splitlines text)
     \<and> (\<forall>i < length out.
          let line = splitlines text ! i in
            (startswith line ''# '' \<longrightarrow> out ! i = bsl # ''section{'' @ drop 2 line @ ''}'')
          \<and> (startswith line ''## '' \<longrightarrow> out ! i = bsl # ''subsection{'' @ drop 3 line @ ''}'')
          \<and> (startswith line ''### '' \<longrightarrow>
                out ! i = bsl # ''subsubsection{'' @ drop 4 line @ ''}'')
          \<and> (\<not> startswith line ''# '' \<and> \<not> startswith line ''## ''
                \<and> \<not> startswith line ''### '' \<longrightarrow> out ! i = line))
     \<and> naive_md_to_latex [] = []
     \<and> naive_md_to_latex ''# Intro'' = bsl # ''section{Intro}''"
proof -
  let ?out = "naive_loop [] (splitlines text)"
  have len: "length ?out = length (splitlines text)"
    by (simp add: naive_loop_length)
  have each: "?out ! i = naive_loop [] [splitlines text ! i] ! 0"
    if "i < length (splitlines text)" for i
    using naive_loop_nth [OF that, of "[]"] by simp
  have lines: "\<forall>i < length ?out.
          let line = splitlines text ! i in
            (startswith line ''# '' \<longrightarrow> ?out ! i = bsl # ''section{'' @ drop 2 line @ ''}'')
          \<and> (startswith line ''## '' \<longrightarrow> ?out ! i = bsl # ''subsection{'' @ drop 3 line @ ''}'')
          \<and> (startswith line ''### '' \<longrightarrow>
                ?out ! i = bsl # ''subsubsection{'' @ drop 4 line @ ''}'')
          \<and> (\<not> startswith line ''# '' \<and> \<not> startswith line ''## ''
                \<and> \<not> startswith line ''### '' \<longrightarrow> ?out ! i = line)"
  proof (intro allI impI)
    fix i assume "i < length ?out"
    then have i: "i < length (splitlines text)" using len by simp
    have excl: "\<not> (startswith l ''# '' \<and> startswith l ''## '')"
         "\<not> (startswith l ''# '' \<and> startswith l ''### '')"
         "\<not> (startswith l ''## '' \<and> startswith l ''### '')" for l
      by (cases l; simp add: startswith_def; cases "tl l"; simp; cases "tl (tl l)"; simp)+
    show "let line = splitlines text ! i in
            (startswith line ''# '' \<longrightarrow> ?out ! i = bsl # ''section{'' @ drop 2 line @ ''}'')
          \<and> (startswith line ''## '' \<longrightarrow> ?out ! i = bsl # ''subsection{'' @ drop 3 line @ ''}'')
          \<and> (startswith line ''### '' \<longrightarrow>
                ?out ! i = bsl # ''subsubsection{'' @ drop 4 line @ ''}'')
          \<and> (\<not> startswith line ''# '' \<and> \<not> startswith line ''## ''
                \<and> \<not> startswith line ''### '' \<longrightarrow> ?out ! i = line)"
      unfolding Let_def each [OF i] using excl [of "splitlines text ! i"] by auto
  qed
  have e: "naive_md_to_latex [] = []"
    by (simp add: naive_md_to_latex_def splitlines_def)
  have intro: "naive_md_to_latex ''# Intro'' = bsl # ''section{Intro}''"
    by (simp add: naive_md_to_latex_def splitlines_def is_linebreak_def startswith_def)
  show ?thesis
    using len lines e intro unfolding naive_md_to_latex_def by blast
qed

theorem naive_md_to_latex_linewise_witness:
  "naive_md_to_latex (''## Method'' @ [LF] @ ''plain text'' @ [LF] @ ''### Data'')
     = bsl # ''subsection{Method}'' @ [LF] @ ''plain text'' @ [LF] @ bsl # ''subsubsection{Data}''
   \<and> (\<exists>out. naive_md_to_latex ''# Intro'' = join [LF] out
        \<and> length out = length (splitlines ''# Intro'')
        \<and> (\<forall>i < length out. startswith (splitlines ''# Intro'' ! i) ''# ''
              \<and> out ! i = bsl # ''section{'' @ drop 2 (splitlines ''# Intro'' ! i) @ ''}''))"
proof -
  have a: "naive_md_to_latex (''## Method'' @ [LF] @ ''plain text'' @ [LF] @ ''### Data'')
     = bsl # ''subsection{Method}'' @ [LF] @ ''plain text'' @ [LF] @ bsl # ''subsubsection{Data}''"
    by (simp add: naive_md_to_latex_def splitlines_def is_linebreak_def startswith_def)
  have sl: "splitlines ''# Intro'' = [''# Intro'']"
    by (simp add: splitlines_def is_linebreak_def)
  from naive_md_to_latex_linewise [of "''# Intro''"]
  obtain out where o: "naive_md_to_latex ''# Intro'' = join [LF] out"
      "length out = length (splitlines ''# Intro'')"
      "\<forall>i < length out.
          let line = splitlines ''# Intro'' ! i in
            (startswith line ''# '' \<longrightarrow> out ! i = bsl # ''section{'' @ drop 2 line @ ''}'')
          \<and> (startswith line ''## '' \<longrightarrow> out ! i = bsl # ''subsection{'' @ drop 3 line @ ''}'')
          \<and> (startswith line ''### '' \<longrightarrow>
                out ! i = bsl # ''subsubsection{'' @ drop 4 line @ ''}'')
          \<and> (\<not> startswith line ''# '' \<and> \<not> startswith line ''## ''
                \<and> \<not> startswith line ''### '' \<longrightarrow> out ! i = line)"
    by blast
  have "\<forall>i < length out. startswith (splitlines ''# Intro'' ! i) ''# ''
              \<and> out ! i = bsl # ''section{'' @ drop 2 (splitlines ''# Intro'' ! i) @ ''}''"
  proof (intro allI impI)
    fix i assume i: "i < length out"
    then have i0: "i = 0" using o(2) sl by simp
    have st: "startswith (splitlines ''# Intro'' ! i) ''# ''"
      unfolding i0 sl by (simp add: startswith_def)
    with o(3) i show "startswith (splitlines ''# Intro'' ! i) ''# ''
              \<and> out ! i = bsl # ''section{'' @ drop 2 (splitlines ''# Intro'' ! i) @ ''}''"
      by (auto simp: Let_def)
  qed
  with a o(1,2) show ?thesis by blast
qed


section \<open>Properties of the External Converter Adapter\<close>

lemma find_pandoc_bare: "find_pandoc bare_system = None"
  by (simp add: find_pandoc_def bare_system_def candidates_def)

lemma find_pandoc_unlaunchable: "find_pandoc unlaunchable_system = Some ''/etc/hostname''"
  by (simp add: find_pandoc_def unlaunchable_system_def bare_system_def)

lemma find_pandoc_undecodable: "find_pandoc undecodable_system = Some ''/usr/bin/pandoc''"
  by (simp add: find_pandoc_def undecodable_system_def bare_system_def)

text \<open>
  The two branches that fall back: when the converter is not found, and when it runs, its
  two streams are decoded, and its return code is not 0, the result is the output of the
  Fallback Typesetter.
\<close>

lemma markdown_to_latex_fallback_branches:
  "find_pandoc sys = None
     \<or> (\<exists>p rc out err. find_pandoc sys = Some p \<and> rc \<noteq> 0
           \<and> child_process sys [p, ''-f'', ''gfm'', ''-t'', ''latex''] md_text
               = Exited rc (Some out) (Some err))
   \<Longrightarrow> markdown_to_latex sys md_text = Inr (naive_md_to_latex md_text)"
  by (auto simp: markdown_to_latex_def subprocess_run_def split: option.splits)

text \<open>
  Claim C8 says that \<^verbatim>\<open>markdown_to_latex\<close> never fails: that it returns the output of the
  Fallback Typesetter whenever the converter cannot be located or exits with a status
  other than 0, so that there is always some output. The code does not do this.
  \<^verbatim>\<open>find_pandoc\<close> returns a path of the variable \<^verbatim>\<open>PANDOC\<close> as soon as it exists; when that
  file cannot be started, \<^verbatim>\<open>subprocess.run\<close> raises \<^verbatim>\<open>OSError\<close>, and \<^verbatim>\<open>markdown_to_latex\<close>,
  which calls it outside any \<^verbatim>\<open>try\<close>, raises too. And a converter that exits with status 1
  after writing an error message that cannot be decoded makes \<^verbatim>\<open>subprocess.run\<close> raise
  \<^verbatim>\<open>UnicodeDecodeError\<close>, so that the test of the return code is never reached.
\<close>

theorem markdown_to_latex_raises:
  "find_pandoc unlaunchable_system = Some ''/etc/hostname''
   \<and> child_process unlaunchable_system [''/etc/hostname'', ''-f'', ''gfm'', ''-t'', ''latex'']
        ''# Intro'' = LaunchFails
   \<and> markdown_to_latex unlaunchable_system ''# Intro'' = Inl OSError
   \<and> find_pandoc undecodable_system = Some ''/usr/bin/pandoc''
   \<and> child_process undecodable_system [''/usr/bin/pandoc'', ''-f'', ''gfm'', ''-t'', ''latex'']
        ''# Intro'' = Exited 1 (Some []) None
   \<and> markdown_to_latex undecodable_system ''# Intro'' = Inl UnicodeDecodeError"
  by (simp add: markdown_to_latex_def subprocess_run_def find_pandoc_unlaunchable
      find_pandoc_undecodable)
    (simp add: unlaunchable_system_def undecodable_system_def bare_system_def)

section \<open>Two examples of the specification\<close>

text \<open>
  Claim C1. On the document whose only line is \<^verbatim>\<open>Keywords: A; b, and C.\<close> the keyword list
  is not \<^verbatim>\<open>["A", "b", "C"]\<close>: the separator pattern tries \<^verbatim>\<open>[;,]\s*\<close> first, which takes
  the comma and the blank before \<^verbatim>\<open>and\<close>, so that the alternative \<^verbatim>\<open>,?\s+and\s+\<close> finds no
  white space in front of \<^verbatim>\<open>and\<close> any more, and the last keyword is \<^verbatim>\<open>and C\<close>.
\<close>

theorem keywords_example_keeps_and:
  "keywords (parse_sections_from_markdown ''Keywords: A; b, and C.'') = [''A'', ''b'', ''and C'']"
  by code_simp

text \<open>
  Claim C2. On the chunk \<^verbatim>\<open>Jane Doe, MIT, jane@mit.edu\<close> the parser returns one record with
  the name \<^verbatim>\<open>Jane Doe\<close> and the whole chunk as affiliation, but with an empty e-mail field:
  the e-mail pattern, with its doubled backslashes, accepts only the characters backslash,
  w, dot and hyphen in front of the at sign.
\<close>

theorem jane_doe_email_empty:
  "split_authors_blocks ''Jane Doe, MIT, jane@mit.edu'' =
     [\<lparr>name = ''Jane Doe'', affiliation = ''Jane Doe, MIT, jane@mit.edu'',
       organization = [], city_country = [], email_or_orcid = []\<rparr>]"
  by code_simp

section \<open>Properties of generation\<close>

lemma strip_Nil [simp]: "strip [] = []"
  by (simp add: strip_def)

text \<open>
  Claim C6, as stated, fails: a request with an empty title is rendered with the default
  title \<^verbatim>\<open>Untitled\<close>, as the template that prints the title alone shows; and a request
  whose \<^verbatim>\<open>author_rows\<close> field is empty raises \<^verbatim>\<open>ValueError\<close>.
\<close>

theorem generate_title_default:
  "generate_context bare_system [''title'' \<mapsto> []] (Stored ''# Hi'') =
     Done \<lparr>ctx_title = ''Untitled'',
           author_blocks = [\<lparr>name = [], affiliation = [], organization = [], city_country = [],
                              email_or_orcid = []\<rparr>],
           ctx_abstract = [], ctx_keywords = [], body_latex = bsl # ''section{Hi}'',
           bibfile_base = ''refs''\<rparr>
   \<and> generate bare_system (\<lambda>ctx. Inr (ctx_title ctx)) [''title'' \<mapsto> []] (Stored ''# Hi'')
       = Done ''Untitled''
   \<and> generate bare_system (\<lambda>ctx. Inr (ctx_title ctx)) [''author_rows'' \<mapsto> []] (Stored ''# Hi'')
       = Raised ValueError"
  by code_simp

text \<open>
  Claim C6, amended. Whenever generation reaches the template, that is for a request
  whose \<^verbatim>\<open>author_rows\<close> field is absent or an integer, whose job files are read and whose
  stored markup is converted without an exception, the template is rendered on a context
  in which an absent or empty title is replaced by \<^verbatim>\<open>Untitled\<close>, an absent or empty
  abstract is the empty string, absent or empty keywords are the empty list, and every
  absent or empty field of each of the author rows is the empty string; the result of
  generation is then what the template gives on that context, its text or its exception.
\<close>

theorem generate_context_fields:
  assumes rows: "py_int (form_get form ''author_rows'' ''1'') = Some rows"
    and conv: "markdown_to_latex sys body_md = Inr latex"
  shows "\<exists>ctx. generate_context sys form (Stored body_md) = Done ctx
     \<and> generate sys template form (Stored body_md)
          = (case template ctx of Inl e \<Rightarrow> Raised e | Inr paper_tex \<Rightarrow> Done paper_tex)
     \<and> (form ''title'' = None \<or> form ''title'' = Some [] \<longrightarrow> ctx_title ctx = ''Untitled'')
     \<and> (form ''abstract'' = None \<or> form ''abstract'' = Some [] \<longrightarrow> ctx_abstract ctx = [])
     \<and> (form ''keywords'' = None \<or> form ''keywords'' = Some [] \<longrightarrow> ctx_keywords ctx = [])
     \<and> length (author_blocks ctx) = nat rows
     \<and> (\<forall>i < nat rows. \<forall>key.
           form (''author_'' @ str_nat i @ ''_'' @ key) = None
           \<or> form (''author_'' @ str_nat i @ ''_'' @ key) = Some [] \<longrightarrow>
             (key = ''name'' \<longrightarrow> name (author_blocks ctx ! i) = [])
           \<and> (key = ''affiliation'' \<longrightarrow> affiliation (author_blocks ctx ! i) = [])
           \<and> (key = ''organization'' \<longrightarrow> organization (author_blocks ctx ! i) = [])
           \<and> (key = ''city_country'' \<longrightarrow> city_country (author_blocks ctx ! i) = [])
           \<and> (key = ''email'' \<longrightarrow> email_or_orcid (author_blocks ctx ! i) = []))"
proof -
  obtain ctx where ctx: "generate_context sys form (Stored body_md) = Done ctx"
    and t: "ctx_title ctx = (if strip (form_get form ''title'' []) = [] then ''Untitled''
                             else strip (form_get form ''title'' []))"
    and a: "ctx_abstract ctx = strip (form_get form ''abstract'' [])"
    and k: "ctx_keywords ctx = map strip (filter (\<lambda>k. strip k \<noteq> [])
                        (re_split (One (OneOf '';,'')) (form_get form ''keywords'' [])))"
    and au: "author_blocks ctx = map (author_row form) [0 ..< nat rows]"
    using rows conv by (simp add: generate_context_def Let_def)
  have g: "generate sys template form (Stored body_md)
      = (case template ctx of Inl e \<Rightarrow> Raised e | Inr paper_tex \<Rightarrow> Done paper_tex)"
    by (simp add: generate_def ctx render_ieee_latex_def)
  have t': "form ''title'' = None \<or> form ''title'' = Some [] \<longrightarrow> ctx_title ctx = ''Untitled''"
    by (auto simp: t form_get_def)
  have a': "form ''abstract'' = None \<or> form ''abstract'' = Some [] \<longrightarrow> ctx_abstract ctx = []"
    by (auto simp: a form_get_def)
  have k': "form ''keywords'' = None \<or> form ''keywords'' = Some [] \<longrightarrow> ctx_keywords ctx = []"
    by (auto simp: k form_get_def re_split_def)
  have len: "length (author_blocks ctx) = nat rows"
    by (simp add: au)
  have rowsi: "\<forall>i < nat rows. \<forall>key.
           form (''author_'' @ str_nat i @ ''_'' @ key) = None
           \<or> form (''author_'' @ str_nat i @ ''_'' @ key) = Some [] \<longrightarrow>
             (key = ''name'' \<longrightarrow> name (author_blocks ctx ! i) = [])
           \<and> (key = ''affiliation'' \<longrightarrow> affiliation (author_blocks ctx ! i) = [])
           \<and> (key = ''organization'' \<longrightarrow> organization (author_blocks ctx ! i) = [])
           \<and> (key = ''city_country'' \<longrightarrow> city_country (author_blocks ctx ! i) = [])
           \<and> (key = ''email'' \<longrightarrow> email_or_orcid (author_blocks ctx ! i) = [])"
    by (auto simp: au author_row_def form_get_def Let_def)
  from ctx g t' a' k' len rowsi show ?thesis by blast
qed

lemma py_int_2: "py_int ''2'' = Some 2"
  by code_simp

lemma str_nat_0: "str_nat 0 = ''0''"
  by (simp add: str_nat.simps)

lemma str_nat_1: "str_nat (Suc 0) = ''1''"
  by (simp add: str_nat.simps)

lemma markdown_to_latex_bare:
  "markdown_to_latex bare_system ''# Hi'' = Inr (bsl # ''section{Hi}'')"
  by (simp add: markdown_to_latex_def find_pandoc_bare naive_md_to_latex_def splitlines_def
      is_linebreak_def startswith_def)

theorem generate_context_fields_witness:
  "py_int (form_get [''author_rows'' \<mapsto> ''2'', ''author_0_name'' \<mapsto> ''Ann'', ''abstract'' \<mapsto> []]
      ''author_rows'' ''1'') = Some 2
   \<and> markdown_to_latex bare_system ''# Hi'' = Inr (bsl # ''section{Hi}'')
   \<and> (\<exists>ctx :: render_context. generate bare_system (\<lambda>c. Inr (ctx_title c))
          [''author_rows'' \<mapsto> ''2'', ''author_0_name'' \<mapsto> ''Ann'', ''abstract'' \<mapsto> []]
          (Stored ''# Hi'') = Done (ctx_title ctx)
        \<and> ctx_title ctx = ''Untitled'' \<and> ctx_abstract ctx = [] \<and> ctx_keywords ctx = []
        \<and> length (author_blocks ctx) = 2
        \<and> name (author_blocks ctx ! 1) = [] \<and> email_or_orcid (author_blocks ctx ! 0) = [])"
proof -
  define form :: "string \<rightharpoonup> string"
    where "form = [''author_rows'' \<mapsto> ''2'', ''author_0_name'' \<mapsto> ''Ann'', ''abstract'' \<mapsto> []]"
  define template :: "render_context \<Rightarrow> py_error + string"
    where "template = (\<lambda>c. Inr (ctx_title c))"
  have r: "py_int (form_get form ''author_rows'' ''1'') = Some 2"
    by (simp add: form_get_def py_int_2 form_def)
  have f1: "form ''title'' = None" "form ''abstract'' = Some []" "form ''keywords'' = None"
    "form (''author_'' @ str_nat 1 @ ''_'' @ ''name'') = None"
    "form (''author_'' @ str_nat 0 @ ''_'' @ ''email'') = None"
    by (simp_all add: form_def str_nat_0 str_nat_1)
  from generate_context_fields [OF r markdown_to_latex_bare, of template]
  obtain ctx :: render_context where
    g: "generate bare_system template form (Stored ''# Hi'')
          = (case template ctx of Inl e \<Rightarrow> Raised e | Inr paper_tex \<Rightarrow> Done paper_tex)"
    and t: "form ''title'' = None \<or> form ''title'' = Some [] \<longrightarrow> ctx_title ctx = ''Untitled''"
    and a: "form ''abstract'' = None \<or> form ''abstract'' = Some [] \<longrightarrow> ctx_abstract ctx = []"
    and k: "form ''keywords'' = None \<or> form ''keywords'' = Some [] \<longrightarrow> ctx_keywords ctx = []"
    and len: "length (author_blocks ctx) = nat 2"
    and rw: "\<forall>i < nat 2. \<forall>key.
           form (''author_'' @ str_nat i @ ''_'' @ key) = None
           \<or> form (''author_'' @ str_nat i @ ''_'' @ key) = Some [] \<longrightarrow>
             (key = ''name'' \<longrightarrow> name (author_blocks ctx ! i) = [])
           \<and> (key = ''affiliation'' \<longrightarrow> affiliation (author_blocks ctx ! i) = [])
           \<and> (key = ''organization'' \<longrightarrow> organization (author_blocks ctx ! i) = [])
           \<and> (key = ''city_country'' \<longrightarrow> city_country (author_blocks ctx ! i) = [])
           \<and> (key = ''email'' \<longrightarrow> email_or_orcid (author_blocks ctx ! i) = [])"
    by (elim exE conjE)
  have g': "generate bare_system template form (Stored ''# Hi'') = Done (ctx_title ctx)"
    using g by (simp add: template_def)
  have t': "ctx_title ctx = ''Untitled''" using t f1 by simp
  have a': "ctx_abstract ctx = []" using a f1 by simp
  have k': "ctx_keywords ctx = []" using k f1 by simp
  have n1: "name (author_blocks ctx ! 1) = []"
    using rw [rule_format, of 1 "''name''"] f1(4) by simp
  have e0: "email_or_orcid (author_blocks ctx ! 0) = []"
    using rw [rule_format, of 0 "''email''"] f1(5) by simp
  from g' t' a' k' len n1 e0
  have "\<exists>ctx :: render_context. generate bare_system template form (Stored ''# Hi'')
          = Done (ctx_title ctx)
        \<and> ctx_title ctx = ''Untitled'' \<and> ctx_abstract ctx = [] \<and> ctx_keywords ctx = []
        \<and> length (author_blocks ctx) = 2
        \<and> name (author_blocks ctx ! 1) = [] \<and> email_or_orcid (author_blocks ctx ! 0) = []"
    by (intro exI [of _ ctx]) simp
  with r markdown_to_latex_bare show ?thesis unfolding form_def template_def by blast
qed

section \<open>Properties of the matcher\<close>

lemma startswith_iff: "startswith s p \<longleftrightarrow> (\<exists>r. s = p @ r)"
  unfolding startswith_def
  by (metis append_eq_conv_conj append_take_drop_id)

lemma spans_self: "s \<in> set (spans a s)"
  by (cases s) auto

lemma set_spans:
  "set (spans a s) = {z. \<exists>u. s = u @ z \<and> (\<forall>c \<in> set u. atom_ok a c)}"
proof (induction s)
  case Nil
  then show ?case by auto
next
  case (Cons c cs)
  show ?case
  proof (intro set_eqI iffI)
    fix z assume "z \<in> set (spans a (c # cs))"
    then consider "z = c # cs" | "atom_ok a c" "z \<in> set (spans a cs)"
      by (auto split: if_splits)
    then show "z \<in> {z. \<exists>u. c # cs = u @ z \<and> (\<forall>c \<in> set u. atom_ok a c)}"
    proof cases
      case 1
      then show ?thesis by (auto intro: exI [of _ "[]"])
    next
      case 2
      with Cons.IH obtain u where "cs = u @ z" "\<forall>c \<in> set u. atom_ok a c" by auto
      with 2 show ?thesis by (auto intro: exI [of _ "c # u"])
    qed
  next
    fix z assume "z \<in> {z. \<exists>u. c # cs = u @ z \<and> (\<forall>c \<in> set u. atom_ok a c)}"
    then obtain u where u: "c # cs = u @ z" "\<forall>c \<in> set u. atom_ok a c" by auto
    show "z \<in> set (spans a (c # cs))"
    proof (cases u)
      case Nil
      with u show ?thesis by (simp add: spans_self del: spans.simps)
    next
      case (Cons d u')
      with u have "d = c" "cs = u' @ z" "atom_ok a c" "\<forall>c \<in> set u'. atom_ok a c" by auto
      with Cons.IH show ?thesis by auto
    qed
  qed
qed

lemma spans_hd: "spans a s \<noteq> [] \<and> hd (spans a s) = s"
  by (cases s) auto

lemma in_run_Eps: "(z, h) \<in> set (run Eps (s, g)) \<longleftrightarrow> z = s \<and> h = g"
  by auto

lemma in_run_Lit: "(z, h) \<in> set (run (Lit l) (s, g)) \<longleftrightarrow> s = l @ z \<and> h = g"
  by (auto simp: startswith_iff)

lemma in_run_One:
  "(z, h) \<in> set (run (One a) (s, g)) \<longleftrightarrow> (\<exists>c. s = c # z \<and> atom_ok a c) \<and> h = g"
  by (cases s) auto

lemma in_run_star:
  "(z, h) \<in> set (run (Rep a 0 None gr) (s, g))
     \<longleftrightarrow> (\<exists>u. s = u @ z \<and> (\<forall>c \<in> set u. atom_ok a c)) \<and> h = g"
  by (auto simp: set_spans Let_def)

lemma in_run_Seq:
  "(z, h) \<in> set (run (Seq p q) st)
     \<longleftrightarrow> (\<exists>m k. (m, k) \<in> set (run p st) \<and> (z, h) \<in> set (run q (m, k)))"
  by auto

lemma in_run_Alt:
  "(z, h) \<in> set (run (Alt p q) st) \<longleftrightarrow> (z, h) \<in> set (run p st) \<or> (z, h) \<in> set (run q st)"
  by auto

lemma in_run_Ahead:
  "(z, h) \<in> set (run (Ahead p) (s, g)) \<longleftrightarrow> z = s \<and> h = g \<and> run p (s, g) \<noteq> []"
  by (cases "run p (s, g)") auto

lemma in_run_LitI:
  "(z, h) \<in> set (run (LitI l) (s, g))
     \<longleftrightarrow> (\<exists>u. s = u @ z \<and> map lower u = map lower l) \<and> h = g"
proof -
  have "map lower (take (length l) s) = map lower l \<Longrightarrow>
        \<exists>u. s = u @ drop (length l) s \<and> map lower u = map lower l"
    by (rule exI [of _ "take (length l) s"]) simp
  moreover have "map lower u = map lower l \<Longrightarrow> take (length l) (u @ z) = u" for u
    using map_eq_imp_length_eq [of lower u lower l] by simp
  moreover have "map lower u = map lower l \<Longrightarrow> drop (length l) (u @ z) = z" for u
    using map_eq_imp_length_eq [of lower u lower l] by simp
  ultimately show ?thesis by auto
qed

lemma in_run_Grp:
  "(z, h) \<in> set (run (Grp n p) (s, g))
     \<longleftrightarrow> (\<exists>k. (z, k) \<in> set (run p (s, g)) \<and> h = (n, take (length s - length z) s) # k)"
  by auto

text \<open>A match consumes a prefix of the text.\<close>

lemma run_suffix: "(z, h) \<in> set (run r (s, g)) \<Longrightarrow> \<exists>u. s = u @ z"
proof (induction r arbitrary: s g z h)
  case (Rep a lo hi gr)
  then have "z \<in> set (spans a s)"
    by (auto simp: Let_def split: option.splits if_splits dest: in_set_dropD in_set_takeD)
  then show ?case by (auto simp: set_spans)
next
  case (Seq p q)
  then obtain m k where "(m, k) \<in> set (run p (s, g))" "(z, h) \<in> set (run q (m, k))"
    by auto
  with Seq.IH show ?case by (metis append.assoc)
next
  case (LitI l)
  then show ?case by (auto split: if_splits intro: exI [of _ "take (length l) s"])
next
  case (One a)
  then show ?case by (cases s) (auto split: if_splits)
qed (auto simp: startswith_iff split: if_splits list.splits)

lemma re_match_None: "re_match r s = None \<longleftrightarrow> run r (s, []) = []"
  by (simp add: re_match_def split: list.splits)

lemma re_match_Some_in: "re_match r s = Some m \<Longrightarrow> m \<in> set (run r (s, []))"
  by (auto simp: re_match_def split: list.splits)

text \<open>An abstract heading begins with \<^verbatim>\<open>#\<close>, a keywords line with a letter.\<close>

lemma abs_re_hash: "re_match abs_re s \<noteq> None \<Longrightarrow> \<exists>t. s = CHR ''#'' # t"
proof -
  assume "re_match abs_re s \<noteq> None"
  then obtain z h where "(z, h) \<in> set (run abs_re (s, []))"
    by (cases "run abs_re (s, [])") (auto simp: re_match_None)
  then obtain m k where "(m, k) \<in> set (run (Rep (Chr CHR ''#'') 1 (Some 6) True) (s, []))"
    unfolding abs_re_def cat.simps in_run_Seq by blast
  then have "m \<in> set (drop 1 (spans (Chr CHR ''#'') s))"
    by (auto simp: Let_def dest: in_set_takeD)
  then show ?thesis by (cases s) (auto split: if_splits)
qed

lemma key_re_letter:
  assumes "re_match key_re s \<noteq> None"
  shows "\<exists>c t. s = c # t \<and> lower c \<in> {CHR ''k'', CHR ''i''}"
proof -
  from assms obtain z h where "(z, h) \<in> set (run key_re (s, []))"
    by (cases "run key_re (s, [])") (auto simp: re_match_None)
  then obtain m k where
    "(m, k) \<in> set (run (Grp 1 (Alt (LitI ''keywords'') (LitI ''index terms''))) (s, []))"
    unfolding key_re_def cat.simps in_run_Seq by blast
  then obtain u where "s = u @ m"
      "map lower u = map lower ''keywords'' \<or> map lower u = map lower ''index terms''"
    unfolding in_run_Grp in_run_Alt in_run_LitI by blast
  moreover have "lower CHR ''k'' = CHR ''k''" "lower CHR ''i'' = CHR ''i''"
    by (simp_all add: lower_def)
  ultimately show ?thesis by (cases u) auto
qed

lemma abs_not_key: "re_match abs_re s \<noteq> None \<Longrightarrow> re_match key_re s = None"
proof (rule ccontr)
  assume a: "re_match abs_re s \<noteq> None" and k: "re_match key_re s \<noteq> None"
  have "lower CHR ''#'' = CHR ''#''" by (simp add: lower_def)
  with abs_re_hash [OF a] key_re_letter [OF k] show False
    by auto
qed

section \<open>Properties of the Metadata Extractor\<close>

lemma parse_abstract:
  "abstract (parse_sections_from_markdown md) =
     strip (join '' '' (abs_buf_of (foldl scan_line (False, [], []) (splitlines md))))"
  by (simp add: parse_sections_from_markdown_def abs_buf_of_def Let_def split: prod.splits)

lemma parse_keywords:
  "keywords (parse_sections_from_markdown md) =
     kws_of (foldl scan_line (False, [], []) (splitlines md))"
  by (simp add: parse_sections_from_markdown_def kws_of_def Let_def split: prod.splits)

subsection \<open>The keyword list\<close>

lemma scan_line_kws:
  "kws_of (scan_line st ln) = (if kws_of st = [] then line_keywords ln else kws_of st)"
proof (cases "re_match abs_re (strip ln) = None")
  case True
  then show ?thesis
    by (cases st) (simp add: scan_line_def kws_of_def line_keywords_def Let_def
        split: option.splits prod.splits)
next
  case False
  then have "re_match key_re (strip ln) = None" by (rule abs_not_key)
  with False show ?thesis
    by (cases st) (simp add: scan_line_def kws_of_def line_keywords_def)
qed

lemma foldl_kws_nonempty:
  "kws_of st \<noteq> [] \<Longrightarrow> kws_of (foldl scan_line st lns) = kws_of st"
  by (induction lns arbitrary: st) (simp_all add: scan_line_kws)

lemma foldl_kws_none:
  "kws_of st = [] \<Longrightarrow> \<forall>l \<in> set lns. line_keywords l = [] \<Longrightarrow>
   kws_of (foldl scan_line st lns) = []"
  by (induction lns arbitrary: st) (simp_all add: scan_line_kws)

lemma foldl_kws_first:
  assumes "kws_of st = []" "\<forall>l \<in> set pre. line_keywords l = []" "line_keywords ln \<noteq> []"
  shows "kws_of (foldl scan_line st (pre @ ln # post)) = line_keywords ln"
proof -
  have "kws_of (foldl scan_line st pre) = []"
    using assms(1,2) by (rule foldl_kws_none)
  then have "kws_of (scan_line (foldl scan_line st pre) ln) = line_keywords ln"
    by (simp add: scan_line_kws)
  with assms(3) show ?thesis
    by (simp add: foldl_kws_nonempty)
qed

text \<open>
  Claim C5, as stated, fails: a first keywords line that yields no keyword does not stop
  the search, and the keywords of a later line are taken.
\<close>

theorem keywords_second_line_used:
  "re_match key_re (strip ''Keywords: ;'') \<noteq> None
   \<and> line_keywords ''Keywords: ;'' = []
   \<and> keywords (parse_sections_from_markdown (''Keywords: ;'' @ [LF] @ ''Keywords: x; y''))
       = [''x'', ''y'']"
  by code_simp

text \<open>
  Claim C5, amended. Keyword extraction uses the first line, in document order, that
  matches the keywords pattern and yields at least one keyword; the lines after it have
  no effect on the keyword list.
\<close>

theorem keywords_first_yielding_line:
  assumes "splitlines md = pre @ ln # post"
    and "\<forall>l \<in> set pre. line_keywords l = []"
    and "line_keywords ln \<noteq> []"
  shows "keywords (parse_sections_from_markdown md) = line_keywords ln"
  using foldl_kws_first [OF _ assms(2,3), of "(False, [], [])" post] assms(1)
  by (simp add: parse_keywords kws_of_def)

theorem keywords_first_yielding_line_witness:
  "splitlines (''Keywords: ;'' @ [LF] @ ''Keywords: x; y'' @ [LF] @ ''Index terms: z'')
     = [''Keywords: ;''] @ ''Keywords: x; y'' # [''Index terms: z'']
   \<and> line_keywords ''Keywords: ;'' = []
   \<and> line_keywords ''Keywords: x; y'' \<noteq> []
   \<and> keywords (parse_sections_from_markdown
        (''Keywords: ;'' @ [LF] @ ''Keywords: x; y'' @ [LF] @ ''Index terms: z'')) = [''x'', ''y'']"
proof -
  have s: "splitlines (''Keywords: ;'' @ [LF] @ ''Keywords: x; y'' @ [LF] @ ''Index terms: z'')
     = [''Keywords: ;''] @ ''Keywords: x; y'' # [''Index terms: z'']"
    by code_simp
  have p0: "line_keywords ''Keywords: ;'' = []"
    by code_simp
  then have p: "\<forall>l \<in> set [''Keywords: ;'']. line_keywords l = []"
    by simp
  have k: "line_keywords ''Keywords: x; y'' = [''x'', ''y'']"
    by code_simp
  then have n: "line_keywords ''Keywords: x; y'' \<noteq> []" by simp
  from keywords_first_yielding_line [OF s p n] k s p0 n show ?thesis by simp
qed

subsection \<open>The abstract\<close>

lemma scan_line_heading:
  "re_match abs_re (strip ln) \<noteq> None \<Longrightarrow>
   scan_line (a, buf, k) ln = (True, buf, k)"
  by (simp add: scan_line_def)

lemma scan_line_outside:
  "re_match abs_re (strip ln) = None \<Longrightarrow>
   in_abs_of (scan_line (False, buf, k) ln) = False
   \<and> abs_buf_of (scan_line (False, buf, k) ln) = buf"
  by (simp add: scan_line_def in_abs_of_def abs_buf_of_def Let_def)

lemma scan_line_inside:
  "re_match abs_re (strip ln) = None \<Longrightarrow> \<not> startswith ln ''#'' \<Longrightarrow>
   in_abs_of (scan_line (True, buf, k) ln) = True
   \<and> abs_buf_of (scan_line (True, buf, k) ln) = buf @ [strip ln]"
  by (simp add: scan_line_def in_abs_of_def abs_buf_of_def Let_def)

lemma scan_line_leave:
  "re_match abs_re (strip ln) = None \<Longrightarrow> startswith ln ''#'' \<Longrightarrow>
   in_abs_of (scan_line (True, buf, k) ln) = False
   \<and> abs_buf_of (scan_line (True, buf, k) ln) = buf"
  by (simp add: scan_line_def in_abs_of_def abs_buf_of_def Let_def)

lemma foldl_outside:
  assumes "\<forall>l \<in> set lns. re_match abs_re (strip l) = None"
    and "in_abs_of st = False"
  shows "in_abs_of (foldl scan_line st lns) = False
     \<and> abs_buf_of (foldl scan_line st lns) = abs_buf_of st"
  using assms
proof (induction lns arbitrary: st)
  case Nil
  then show ?case by simp
next
  case (Cons l lns)
  obtain a buf k where st: "st = (a, buf, k)" by (cases st)
  with Cons.prems have a: "a = False" by (simp add: in_abs_of_def)
  from Cons.prems have l: "re_match abs_re (strip l) = None" by simp
  from scan_line_outside [OF l, of buf k] Cons.IH [of "scan_line st l"] Cons.prems(1)
  show ?case by (simp add: st a abs_buf_of_def)
qed

lemma foldl_inside:
  assumes "\<forall>l \<in> set lns. re_match abs_re (strip l) = None \<and> \<not> startswith l ''#''"
    and "in_abs_of st = True"
  shows "in_abs_of (foldl scan_line st lns) = True
     \<and> abs_buf_of (foldl scan_line st lns) = abs_buf_of st @ map strip lns"
  using assms
proof (induction lns arbitrary: st)
  case Nil
  then show ?case by simp
next
  case (Cons l lns)
  obtain a buf k where st: "st = (a, buf, k)" by (cases st)
  with Cons.prems have a: "a = True" by (simp add: in_abs_of_def)
  from Cons.prems have l: "re_match abs_re (strip l) = None" "\<not> startswith l ''#''"
    by simp_all
  from scan_line_inside [OF l, of buf k] Cons.IH [of "scan_line st l"] Cons.prems(1)
  show ?case by (simp add: st a abs_buf_of_def)
qed

lemma abstract_one_section:
  assumes h: "re_match abs_re (strip h) \<noteq> None"
    and pre: "\<forall>l \<in> set pre. re_match abs_re (strip l) = None"
    and body: "\<forall>l \<in> set body. re_match abs_re (strip l) = None \<and> \<not> startswith l ''#''"
    and h2: "re_match abs_re (strip h2) = None" "startswith h2 ''#''"
    and post: "\<forall>l \<in> set post. re_match abs_re (strip l) = None"
  shows "abs_buf_of (foldl scan_line (False, [], []) (pre @ h # body @ h2 # post))
           = map strip body"
proof -
  define s1 where "s1 = foldl scan_line (False, [], []) pre"
  have b1: "abs_buf_of s1 = []"
    using foldl_outside [OF pre, of "(False, [], [])"]
    by (simp add: s1_def in_abs_of_def abs_buf_of_def)
  define s2 where "s2 = scan_line s1 h"
  have b2: "in_abs_of s2 = True" "abs_buf_of s2 = []"
    using scan_line_heading [OF h, of "fst s1" "fst (snd s1)" "snd (snd s1)"] b1
    by (simp_all add: s2_def in_abs_of_def abs_buf_of_def)
  define s3 where "s3 = foldl scan_line s2 body"
  have b3: "in_abs_of s3 = True" "abs_buf_of s3 = map strip body"
    using foldl_inside [OF body b2(1)] b2(2) by (simp_all add: s3_def)
  define s4 where "s4 = scan_line s3 h2"
  have b4: "in_abs_of s4 = False" "abs_buf_of s4 = map strip body"
    using scan_line_leave [OF h2, of "fst (snd s3)" "snd (snd s3)"] b3
    by (cases s3; simp add: s4_def in_abs_of_def abs_buf_of_def)+
  have "abs_buf_of (foldl scan_line s4 post) = map strip body"
    using foldl_outside [OF post b4(1)] b4(2) by simp
  then show ?thesis
    by (simp add: s1_def s2_def s3_def s4_def)
qed

text \<open>
  Claim C4, as stated, fails on two counts: each line of the abstract is stripped of its
  surrounding white space before the lines are joined, and a second abstract heading adds
  its section to the abstract of the first. The second conjunct is the value the claim
  gives for the section of the first heading.
\<close>

theorem abstract_two_sections:
  "abstract (parse_sections_from_markdown
      (''## Abstract'' @ [LF] @ ''  A  '' @ [LF] @ ''B'' @ [LF] @ ''## Intro'' @ [LF]
        @ ''## Abstract'' @ [LF] @ ''C'' @ [LF] @ ''## End'')) = ''A B C''
   \<and> strip (join '' '' [''  A  '', ''B'']) = ''A   B''"
  by code_simp

text \<open>
  Claim C4, amended. If exactly one line of the markup is an abstract heading (stripped,
  it matches \<^verbatim>\<open>abs_re\<close>) and it is followed by N lines that do not begin with \<^verbatim>\<open>#\<close> and
  then by a line that does, the abstract is those N lines, each stripped of its surrounding
  white space, joined by single spaces, and stripped; and if no line is an abstract
  heading, the abstract is empty.
\<close>

theorem abstract_of_single_section:
  "(splitlines md = pre @ h # body @ h2 # post
      \<and> re_match abs_re (strip h) \<noteq> None
      \<and> (\<forall>l \<in> set (pre @ body @ h2 # post). re_match abs_re (strip l) = None)
      \<and> (\<forall>l \<in> set body. \<not> startswith l ''#'') \<and> startswith h2 ''#''
    \<longrightarrow> abstract (parse_sections_from_markdown md) = strip (join '' '' (map strip body)))
   \<and> ((\<forall>l \<in> set (splitlines md). re_match abs_re (strip l) = None)
    \<longrightarrow> abstract (parse_sections_from_markdown md) = [])"
proof (intro conjI impI)
  assume a: "splitlines md = pre @ h # body @ h2 # post
      \<and> re_match abs_re (strip h) \<noteq> None
      \<and> (\<forall>l \<in> set (pre @ body @ h2 # post). re_match abs_re (strip l) = None)
      \<and> (\<forall>l \<in> set body. \<not> startswith l ''#'') \<and> startswith h2 ''#''"
  then have "abs_buf_of (foldl scan_line (False, [], []) (pre @ h # body @ h2 # post))
           = map strip body"
    by (intro abstract_one_section) auto
  with a show "abstract (parse_sections_from_markdown md) = strip (join '' '' (map strip body))"
    by (simp add: parse_abstract)
next
  assume "\<forall>l \<in> set (splitlines md). re_match abs_re (strip l) = None"
  from foldl_outside [OF this, of "(False, [], [])"]
  show "abstract (parse_sections_from_markdown md) = []"
    by (simp add: parse_abstract in_abs_of_def abs_buf_of_def)
qed

theorem abstract_of_single_section_witness:
  "splitlines (''# T'' @ [LF] @ ''## Abstract'' @ [LF] @ '' one '' @ [LF] @ ''two'' @ [LF]
       @ ''## Intro'' @ [LF] @ ''body'')
     = [''# T''] @ ''## Abstract'' # ['' one '', ''two''] @ ''## Intro'' # [''body'']
   \<and> re_match abs_re (strip ''## Abstract'') \<noteq> None
   \<and> re_match abs_re (strip ''# T'') = None \<and> re_match abs_re (strip '' one '') = None
   \<and> re_match abs_re (strip ''two'') = None \<and> re_match abs_re (strip ''## Intro'') = None
   \<and> re_match abs_re (strip ''body'') = None
   \<and> \<not> startswith '' one '' ''#'' \<and> \<not> startswith ''two'' ''#'' \<and> startswith ''## Intro'' ''#''
   \<and> abstract (parse_sections_from_markdown
        (''# T'' @ [LF] @ ''## Abstract'' @ [LF] @ '' one '' @ [LF] @ ''two'' @ [LF]
          @ ''## Intro'' @ [LF] @ ''body'')) = ''one two''
   \<and> splitlines (''# T'' @ [LF] @ ''text'') = [''# T'', ''text'']
   \<and> re_match abs_re (strip ''text'') = None
   \<and> abstract (parse_sections_from_markdown (''# T'' @ [LF] @ ''text'')) = []"
proof -
  let ?md = "''# T'' @ [LF] @ ''## Abstract'' @ [LF] @ '' one '' @ [LF] @ ''two'' @ [LF]
       @ ''## Intro'' @ [LF] @ ''body''"
  have facts: "splitlines ?md
     = [''# T''] @ ''## Abstract'' # ['' one '', ''two''] @ ''## Intro'' # [''body'']
   \<and> re_match abs_re (strip ''## Abstract'') \<noteq> None
   \<and> re_match abs_re (strip ''# T'') = None \<and> re_match abs_re (strip '' one '') = None
   \<and> re_match abs_re (strip ''two'') = None \<and> re_match abs_re (strip ''## Intro'') = None
   \<and> re_match abs_re (strip ''body'') = None
   \<and> \<not> startswith '' one '' ''#'' \<and> \<not> startswith ''two'' ''#'' \<and> startswith ''## Intro'' ''#''"
    by code_simp
  then have hyp: "splitlines ?md
     = [''# T''] @ ''## Abstract'' # ['' one '', ''two''] @ ''## Intro'' # [''body'']
   \<and> re_match abs_re (strip ''## Abstract'') \<noteq> None
   \<and> (\<forall>l \<in> set ([''# T''] @ ['' one '', ''two''] @ ''## Intro'' # [''body'']).
         re_match abs_re (strip l) = None)
   \<and> (\<forall>l \<in> set ['' one '', ''two'']. \<not> startswith l ''#'') \<and> startswith ''## Intro'' ''#''"
    by simp
  have facts2: "splitlines (''# T'' @ [LF] @ ''text'') = [''# T'', ''text'']
      \<and> re_match abs_re (strip ''text'') = None"
    by code_simp
  with facts have hyp2: "\<forall>l \<in> set (splitlines (''# T'' @ [LF] @ ''text'')).
      re_match abs_re (strip l) = None"
    by simp
  have val: "strip (join '' '' (map strip ['' one '', ''two''])) = ''one two''"
    by code_simp
  from abstract_of_single_section [of ?md "[''# T'']" "''## Abstract''" "['' one '', ''two'']"
      "''## Intro''" "[''body'']"] hyp
  have a: "abstract (parse_sections_from_markdown ?md)
      = strip (join '' '' (map strip ['' one '', ''two'']))"
    by blast
  from abstract_of_single_section [of "''# T'' @ [LF] @ ''text''"] hyp2
  have b: "abstract (parse_sections_from_markdown (''# T'' @ [LF] @ ''text'')) = []"
    by blast
  from facts facts2 a b val show ?thesis by simp
qed

subsection \<open>The keywords line inside the abstract\<close>

lemma scan_line_grows:
  "\<exists>more. abs_buf_of (scan_line st ln) = abs_buf_of st @ more"
  by (cases st) (simp add: scan_line_def abs_buf_of_def Let_def)

lemma foldl_grows:
  "\<exists>more. abs_buf_of (foldl scan_line st lns) = abs_buf_of st @ more"
proof (induction lns arbitrary: st)
  case Nil
  then show ?case by simp
next
  case (Cons l lns)
  from scan_line_grows [of st l] obtain m1
    where m1: "abs_buf_of (scan_line st l) = abs_buf_of st @ m1" by blast
  from Cons.IH [of "scan_line st l"] obtain m2
    where "abs_buf_of (foldl scan_line (scan_line st l) lns) = abs_buf_of (scan_line st l) @ m2"
    by blast
  with m1 show ?case by simp
qed

lemma scan_line_stays:
  "\<not> startswith ln ''#'' \<Longrightarrow> in_abs_of st \<Longrightarrow> in_abs_of (scan_line st ln)"
  by (cases st) (simp add: scan_line_def in_abs_of_def Let_def)

lemma foldl_stays:
  "\<forall>l \<in> set lns. \<not> startswith l ''#'' \<Longrightarrow> in_abs_of st \<Longrightarrow>
   in_abs_of (foldl scan_line st lns)"
  by (induction lns arbitrary: st) (simp_all add: scan_line_stays)

lemma join_sublist: "x \<in> set xs \<Longrightarrow> sublist x (join sep xs)"
proof (induction sep xs rule: join.induct)
  case (1 sep)
  then show ?case by simp
next
  case (2 sep y)
  then show ?case by simp
next
  case (3 sep y z zs)
  show ?case
  proof (cases "x = y")
    case True
    then show ?thesis by (simp add: sublist_append_rightI)
  next
    case False
    with 3 have "sublist x (join sep (z # zs))" by simp
    then obtain p q where "join sep (z # zs) = p @ x @ q"
      by (auto simp: sublist_def)
    then have "join sep (y # z # zs) = (y @ sep @ p) @ x @ q" by simp
    then show ?thesis unfolding sublist_def by blast
  qed
qed

lemma dropWhile_keeps:
  "x \<noteq> [] \<Longrightarrow> \<not> P (hd x) \<Longrightarrow> \<exists>p'. dropWhile P (p @ x @ q) = p' @ x @ q"
proof (induction p)
  case Nil
  then show ?case by (cases x) (auto intro: exI [of _ "[]"])
next
  case (Cons a p)
  then show ?case by (cases "P a") (auto intro: exI [of _ "a # p"])
qed

lemma strip_keeps:
  assumes "sublist x s" "x \<noteq> []" "\<not> isspace (hd x)" "\<not> isspace (last x)"
  shows "sublist x (strip s)"
proof -
  from assms(1) obtain p q where s: "s = p @ x @ q" by (auto simp: sublist_def)
  from dropWhile_keeps [where P = isspace and x = x and p = p and q = q, OF assms(2,3)]
  obtain p'
    where 1: "dropWhile isspace s = p' @ x @ q" unfolding s by blast
  have "rev x \<noteq> []" "\<not> isspace (hd (rev x))"
    using assms(2,4) by (simp_all add: hd_rev)
  from dropWhile_keeps [where P = isspace and x = "rev x" and p = "rev q" and q = "rev p'",
      OF this]
  obtain q'
    where 2: "dropWhile isspace (rev q @ rev x @ rev p') = q' @ rev x @ rev p'" by blast
  have "strip s = p' @ x @ rev q'"
    by (simp add: strip_def 1 2)
  then show ?thesis by (auto simp: sublist_def)
qed

lemma last_dropWhile: "dropWhile P xs \<noteq> [] \<Longrightarrow> last (dropWhile P xs) = last xs"
  by (induction xs) (auto split: if_splits)

lemma strip_ends:
  assumes "strip s \<noteq> []"
  shows "\<not> isspace (hd (strip s)) \<and> \<not> isspace (last (strip s))"
proof -
  define d where "d = dropWhile isspace s"
  define e where "e = dropWhile isspace (rev d)"
  have st: "strip s = rev e" by (simp add: strip_def d_def e_def)
  with assms have e: "e \<noteq> []" by simp
  then have rd: "rev d \<noteq> []" by (auto simp: e_def)
  have "\<not> isspace (hd e)" using e unfolding e_def by (rule hd_dropWhile)
  moreover have "last e = last (rev d)" using e unfolding e_def by (rule last_dropWhile)
  moreover have "\<not> isspace (hd d)" using rd unfolding d_def by (simp add: hd_dropWhile)
  ultimately show ?thesis using e rd by (simp add: st hd_rev last_rev)
qed

text \<open>
  Claim C10, as stated, fails on two counts: a keywords line inside the abstract that
  yields no keyword is part of the abstract, but the keyword list is taken from a later
  line; and the line enters the abstract without its surrounding white space, so that
  the text of the line as it stands is not a part of the abstract.
\<close>

theorem keywords_line_not_the_source:
  "re_match key_re (strip ''  Keywords: ; '') \<noteq> None
   \<and> line_keywords ''  Keywords: ; '' = []
   \<and> keywords (parse_sections_from_markdown
        (''## Abstract'' @ [LF] @ ''x'' @ [LF] @ ''  Keywords: ; '' @ [LF] @ ''y'' @ [LF]
          @ ''## Intro'' @ [LF] @ ''Keywords: k'')) = [''k'']
   \<and> abstract (parse_sections_from_markdown
        (''## Abstract'' @ [LF] @ ''x'' @ [LF] @ ''  Keywords: ; '' @ [LF] @ ''y'' @ [LF]
          @ ''## Intro'' @ [LF] @ ''Keywords: k'')) = ''x Keywords: ; y''
   \<and> \<not> sublist ''  Keywords: ; '' ''x Keywords: ; y''"
  by code_simp

text \<open>
  Claim C10, amended. If the first line that matches the keywords pattern comes after an
  abstract heading with only lines that do not begin with \<^verbatim>\<open>#\<close> in between, does not begin
  with \<^verbatim>\<open>#\<close> itself, and yields at least one keyword, then the keyword list is the one of
  that line, and the text of the line, stripped of its surrounding white space, is a
  contiguous part of the abstract.
\<close>

theorem keywords_line_in_abstract:
  assumes lns: "splitlines md = pre @ h # body @ ln # post"
    and h: "re_match abs_re (strip h) \<noteq> None"
    and body: "\<forall>l \<in> set (body @ [ln]). \<not> startswith l ''#''"
    and first: "\<forall>l \<in> set (pre @ h # body). re_match key_re (strip l) = None"
    and key: "re_match key_re (strip ln) \<noteq> None"
    and some: "line_keywords ln \<noteq> []"
  shows "keywords (parse_sections_from_markdown md) = line_keywords ln
     \<and> sublist (strip ln) (abstract (parse_sections_from_markdown md))"
proof -
  have none: "\<forall>l \<in> set (pre @ h # body). line_keywords l = []"
    using first by (simp add: line_keywords_def)
  have "kws_of (foldl scan_line (False, [], []) ((pre @ h # body) @ ln # post))
      = line_keywords ln"
    by (rule foldl_kws_first [OF _ none some]) (simp add: kws_of_def)
  then have k: "keywords (parse_sections_from_markdown md) = line_keywords ln"
    by (simp add: parse_keywords lns)
  define s1 where "s1 = foldl scan_line (False, [], []) pre"
  define s2 where "s2 = scan_line s1 h"
  have i2: "in_abs_of s2"
    using scan_line_heading [OF h, of "fst s1" "fst (snd s1)" "snd (snd s1)"]
    by (simp add: s2_def in_abs_of_def)
  define s3 where "s3 = foldl scan_line s2 body"
  have i3: "in_abs_of s3"
    unfolding s3_def using body i2 by (intro foldl_stays) auto
  have nabs: "re_match abs_re (strip ln) = None"
    using abs_not_key [of "strip ln"] key by blast
  have nh: "\<not> startswith ln ''#''" using body by simp
  define s4 where "s4 = scan_line s3 ln"
  have b4: "abs_buf_of s4 = abs_buf_of s3 @ [strip ln]"
    using scan_line_inside [OF nabs nh, of "fst (snd s3)" "snd (snd s3)"] i3
    by (cases s3) (simp add: s4_def in_abs_of_def abs_buf_of_def)
  from foldl_grows [of s4 post] obtain more
    where "abs_buf_of (foldl scan_line s4 post) = abs_buf_of s3 @ [strip ln] @ more"
    using b4 by auto
  then have "strip ln \<in> set (abs_buf_of (foldl scan_line (False, [], [])
      (pre @ h # body @ ln # post)))"
    by (simp add: s1_def s2_def s3_def s4_def)
  then have j: "sublist (strip ln) (join '' '' (abs_buf_of (foldl scan_line (False, [], [])
      (splitlines md))))"
    unfolding lns by (rule join_sublist)
  from key_re_letter [OF key] have ne: "strip ln \<noteq> []" by auto
  from strip_keeps [OF j ne] strip_ends [OF ne]
  have "sublist (strip ln) (abstract (parse_sections_from_markdown md))"
    by (simp add: parse_abstract)
  with k show ?thesis by simp
qed

theorem keywords_line_in_abstract_witness:
  "splitlines (''# T'' @ [LF] @ ''## Abstract'' @ [LF] @ ''We study x.'' @ [LF]
       @ '' Keywords: x; y '' @ [LF] @ ''## Intro'' @ [LF] @ ''Index terms: z'')
     = [''# T''] @ ''## Abstract'' # [''We study x.''] @ '' Keywords: x; y ''
         # [''## Intro'', ''Index terms: z'']
   \<and> re_match abs_re (strip ''## Abstract'') \<noteq> None
   \<and> \<not> startswith ''We study x.'' ''#'' \<and> \<not> startswith '' Keywords: x; y '' ''#''
   \<and> re_match key_re (strip ''# T'') = None \<and> re_match key_re (strip ''## Abstract'') = None
   \<and> re_match key_re (strip ''We study x.'') = None
   \<and> re_match key_re (strip '' Keywords: x; y '') \<noteq> None
   \<and> line_keywords '' Keywords: x; y '' \<noteq> []
   \<and> keywords (parse_sections_from_markdown
        (''# T'' @ [LF] @ ''## Abstract'' @ [LF] @ ''We study x.'' @ [LF]
          @ '' Keywords: x; y '' @ [LF] @ ''## Intro'' @ [LF] @ ''Index terms: z''))
       = [''x'', ''y'']
   \<and> sublist ''Keywords: x; y'' (abstract (parse_sections_from_markdown
        (''# T'' @ [LF] @ ''## Abstract'' @ [LF] @ ''We study x.'' @ [LF]
          @ '' Keywords: x; y '' @ [LF] @ ''## Intro'' @ [LF] @ ''Index terms: z'')))"
proof -
  let ?md = "''# T'' @ [LF] @ ''## Abstract'' @ [LF] @ ''We study x.'' @ [LF]
       @ '' Keywords: x; y '' @ [LF] @ ''## Intro'' @ [LF] @ ''Index terms: z''"
  have 1: "splitlines ?md = [''# T''] @ ''## Abstract'' # [''We study x.'']
      @ '' Keywords: x; y '' # [''## Intro'', ''Index terms: z'']"
    by code_simp
  have 2: "re_match abs_re (strip ''## Abstract'') \<noteq> None" by code_simp
  have 3: "\<not> startswith ''We study x.'' ''#'' \<and> \<not> startswith '' Keywords: x; y '' ''#''"
    by code_simp
  then have nohash: "\<forall>l \<in> set ([''We study x.''] @ ['' Keywords: x; y '']). \<not> startswith l ''#''"
    by simp
  have 4: "re_match key_re (strip ''# T'') = None \<and> re_match key_re (strip ''## Abstract'') = None
      \<and> re_match key_re (strip ''We study x.'') = None"
    by code_simp
  then have nokey: "\<forall>l \<in> set ([''# T''] @ ''## Abstract'' # [''We study x.'']).
         re_match key_re (strip l) = None"
    by simp
  have 5: "re_match key_re (strip '' Keywords: x; y '') \<noteq> None" by code_simp
  have 6: "line_keywords '' Keywords: x; y '' = [''x'', ''y'']" by code_simp
  then have 7: "line_keywords '' Keywords: x; y '' \<noteq> []" by simp
  have 8: "strip '' Keywords: x; y '' = ''Keywords: x; y''" by code_simp
  from keywords_line_in_abstract [OF 1 2 nohash nokey 5 7] 6 8
  have "keywords (parse_sections_from_markdown ?md) = [''x'', ''y'']
     \<and> sublist ''Keywords: x; y'' (abstract (parse_sections_from_markdown ?md))"
    by simp
  with 1 2 3 4 5 7 show ?thesis by blast
qed

section \<open>Properties of the Body Sanitizer\<close>

declare re_sub_empty.simps [simp del]

lemma re_sub_empty_Nil [simp]: "re_sub_empty r [] = []"
  by (simp add: re_sub_empty.simps)

lemma re_sub_empty_step:
  "re_sub_empty r (c # cs) =
     (case hit r (c # cs) of None \<Rightarrow> c # re_sub_empty r cs | Some rest \<Rightarrow> re_sub_empty r rest)"
  by (simp add: re_sub_empty.simps hit_def split: option.splits prod.splits)

lemma hit_Nil [simp]: "hit r [] = None"
  by (simp add: hit_def split: option.splits prod.splits)

lemma hit_shorter: "hit r s = Some rest \<Longrightarrow> length rest < length s"
  by (auto simp: hit_def split: option.splits prod.splits if_splits)

lemma hit_in: "hit r s = Some rest \<Longrightarrow> \<exists>g. (rest, g) \<in> set (run r (s, []))"
  by (auto simp: hit_def split: option.splits prod.splits if_splits dest: re_match_Some_in)

lemma hit_suffix: "hit r s = Some rest \<Longrightarrow> \<exists>u. s = u @ rest"
  using hit_in run_suffix by blast

lemma hit_SomeI:
  assumes "run r (s, []) \<noteq> []" "\<forall>(z, g) \<in> set (run r (s, [])). length z < length s"
  shows "hit r s \<noteq> None"
proof -
  from assms(1) obtain z g ms where r: "run r (s, []) = (z, g) # ms"
    by (cases "run r (s, [])") auto
  with assms(2) have "length z < length s" by auto
  with r show ?thesis by (simp add: hit_def re_match_def)
qed

lemma clean_Nil [simp]: "clean r []"
  by (simp add: clean_def)

lemma clean_Cons: "clean r (c # cs) \<longleftrightarrow> hit r (c # cs) = None \<and> clean r cs"
  unfolding clean_def by (auto simp: Cons_eq_append_conv) 

lemma clean_suffix: "clean r (u @ v) \<Longrightarrow> clean r v"
  unfolding clean_def by (metis append.assoc)

lemma clean_id: "clean r s \<Longrightarrow> re_sub_empty r s = s"
  by (induction s) (simp_all add: clean_Cons re_sub_empty_step)

lemma in_run_opt:
  "(z, h) \<in> set (run (Rep a 0 (Some 1) True) (s, g))
     \<longleftrightarrow> (z = s \<or> (\<exists>c. s = c # z \<and> atom_ok a c)) \<and> h = g"
  by (cases s; cases "tl s") (auto simp: Let_def)

lemma run_delim: "run delim_re (z, g) \<noteq> [] \<longleftrightarrow> is_delim z"
  by (simp add: delim_re_def is_delim_def)



lemma in_cat_Nil: "(z, h) \<in> set (run (cat []) (s, g)) \<longleftrightarrow> z = s \<and> h = g"
  by auto

lemma in_cat_Lit:
  "(z, h) \<in> set (run (cat (Lit l # rs)) (s, g))
     \<longleftrightarrow> (\<exists>t. s = l @ t \<and> (z, h) \<in> set (run (cat rs) (t, g)))"
  by (auto simp: startswith_iff)

lemma in_cat_One:
  "(z, h) \<in> set (run (cat (One a # rs)) (s, g))
     \<longleftrightarrow> (\<exists>c t. s = c # t \<and> atom_ok a c \<and> (z, h) \<in> set (run (cat rs) (t, g)))"
  by (cases s) auto

lemma in_cat_star:
  "(z, h) \<in> set (run (cat (Rep a 0 None gr # rs)) (s, g))
     \<longleftrightarrow> (\<exists>u t. s = u @ t \<and> (\<forall>c \<in> set u. atom_ok a c) \<and> (z, h) \<in> set (run (cat rs) (t, g)))"
proof -
  have "(z, h) \<in> set (run (cat (Rep a 0 None gr # rs)) (s, g))
     \<longleftrightarrow> (\<exists>t k. (t, k) \<in> set (run (Rep a 0 None gr) (s, g)) \<and> (z, h) \<in> set (run (cat rs) (t, k)))"
    unfolding cat.simps by (rule in_run_Seq)
  also have "\<dots> \<longleftrightarrow> (\<exists>u t. s = u @ t \<and> (\<forall>c \<in> set u. atom_ok a c)
      \<and> (z, h) \<in> set (run (cat rs) (t, g)))"
    unfolding in_run_star by blast
  finally show ?thesis .
qed

lemma in_cat_opt:
  "(z, h) \<in> set (run (cat (Rep a 0 (Some 1) True # rs)) (s, g))
     \<longleftrightarrow> (z, h) \<in> set (run (cat rs) (s, g))
       \<or> (\<exists>c t. s = c # t \<and> atom_ok a c \<and> (z, h) \<in> set (run (cat rs) (t, g)))"
proof -
  have "(z, h) \<in> set (run (cat (Rep a 0 (Some 1) True # rs)) (s, g))
     \<longleftrightarrow> (\<exists>t k. (t, k) \<in> set (run (Rep a 0 (Some 1) True) (s, g))
            \<and> (z, h) \<in> set (run (cat rs) (t, k)))"
    unfolding cat.simps by (rule in_run_Seq)
  also have "\<dots> \<longleftrightarrow> (z, h) \<in> set (run (cat rs) (s, g))
       \<or> (\<exists>c t. s = c # t \<and> atom_ok a c \<and> (z, h) \<in> set (run (cat rs) (t, g)))"
    unfolding in_run_opt by blast
  finally show ?thesis .
qed

lemma in_cat_Ahead:
  "(z, h) \<in> set (run (cat (Ahead p # rs)) (s, g))
     \<longleftrightarrow> run p (s, g) \<noteq> [] \<and> (z, h) \<in> set (run (cat rs) (s, g))"
  by (cases "run p (s, g)") auto

lemmas in_cat = in_cat_Nil in_cat_Lit in_cat_One in_cat_star in_cat_opt in_cat_Ahead

lemma in_run_abstract_raw:
  "(z, h) \<in> set (run abstract_sec_re (s, g))
     \<longleftrightarrow> (\<exists>t1. s = bsl # ''section'' @ t1 \<and> (\<exists>u t2. t1 = u @ t2 \<and> (\<forall>c \<in> set u. c = bsl) \<and>
          (\<exists>t3. t2 = bsl # ''{'' @ t3 \<and> (\<exists>a t4. t3 = a # t4 \<and> a \<in> set ''Aa'' \<and>
          (\<exists>t5. t4 = ''bstract'' @ bsl # ''}'' @ t5 \<and> (\<exists>w t6. t5 = w @ t6 \<and>
             is_delim t6 \<and> z = t6 \<and> h = g))))))"
  unfolding abstract_sec_re_def in_cat run_delim atom_ok.simps by simp


lemma in_run_abstract:
  "(z, h) \<in> set (run abstract_sec_re (s, g))
     \<longleftrightarrow> h = g \<and> (\<exists>H w. abstract_head H \<and> s = H @ w @ z \<and> is_delim z)"
proof (intro iffI)
  assume "(z, h) \<in> set (run abstract_sec_re (s, g))"
  then obtain t1 u t2 t3 a t4 t5 w where
    1: "s = bsl # ''section'' @ t1" and 2: "t1 = u @ t2" and u: "\<forall>c \<in> set u. c = bsl"
    and 3: "t2 = bsl # ''{'' @ t3" and 4: "t3 = a # t4" and a: "a \<in> set ''Aa''"
    and 5: "t4 = ''bstract'' @ bsl # ''}'' @ t5" and 6: "t5 = w @ z"
    and d: "is_delim z" and h: "h = g"
    unfolding in_run_abstract_raw by (elim exE conjE) simp
  have "abstract_head (bsl # ''section'' @ u @ bsl # ''{'' @ a # ''bstract'' @ bsl # ''}'')"
    unfolding abstract_head_def using u a by blast
  moreover have "s = (bsl # ''section'' @ u @ bsl # ''{'' @ a # ''bstract'' @ bsl # ''}'') @ w @ z"
    by (simp add: 1 2 3 4 5 6)
  ultimately show "h = g \<and> (\<exists>H w. abstract_head H \<and> s = H @ w @ z \<and> is_delim z)"
    using d h by blast
next
  assume "h = g \<and> (\<exists>H w. abstract_head H \<and> s = H @ w @ z \<and> is_delim z)"
  then obtain u a w where
    s: "s = (bsl # ''section'' @ u @ bsl # ''{'' @ a # ''bstract'' @ bsl # ''}'') @ w @ z"
    and u: "\<forall>c \<in> set u. c = bsl" and a: "a \<in> set ''Aa''" and d: "is_delim z" and h: "h = g"
    unfolding abstract_head_def by (elim exE conjE) simp
  have m7: "(z, g) \<in> set (run (cat [Ahead delim_re]) (z, g))"
    unfolding in_cat_Ahead in_cat_Nil run_delim using d by simp
  have m6: "(z, g) \<in> set (run (cat [Rep DotAll 0 None False, Ahead delim_re]) (w @ z, g))"
    unfolding in_cat_star atom_ok.simps using m7 by blast
  have m5: "(z, g) \<in> set (run (cat [Lit (''bstract'' @ bsl # ''}''), Rep DotAll 0 None False,
      Ahead delim_re]) ((''bstract'' @ bsl # ''}'') @ w @ z, g))"
    unfolding in_cat_Lit using m6 by blast
  have m4: "(z, g) \<in> set (run (cat [One (OneOf ''Aa''), Lit (''bstract'' @ bsl # ''}''),
      Rep DotAll 0 None False, Ahead delim_re]) (a # (''bstract'' @ bsl # ''}'') @ w @ z, g))"
    unfolding in_cat_One atom_ok.simps using m5 a by blast
  have m3: "(z, g) \<in> set (run (cat [Lit (bsl # ''{''), One (OneOf ''Aa''),
      Lit (''bstract'' @ bsl # ''}''), Rep DotAll 0 None False, Ahead delim_re])
      ((bsl # ''{'') @ a # (''bstract'' @ bsl # ''}'') @ w @ z, g))"
    unfolding in_cat_Lit using m4 by blast
  have m2: "(z, g) \<in> set (run (cat [Rep (Chr bsl) 0 None False, Lit (bsl # ''{''),
      One (OneOf ''Aa''), Lit (''bstract'' @ bsl # ''}''), Rep DotAll 0 None False,
      Ahead delim_re]) (u @ (bsl # ''{'') @ a # (''bstract'' @ bsl # ''}'') @ w @ z, g))"
    unfolding in_cat_star atom_ok.simps using m3 u by blast
  have m1: "(z, g) \<in> set (run abstract_sec_re
      ((bsl # ''section'') @ u @ (bsl # ''{'') @ a # (''bstract'' @ bsl # ''}'') @ w @ z, g))"
    unfolding abstract_sec_re_def in_cat_Lit using m2 by blast
  then show "(z, h) \<in> set (run abstract_sec_re (s, g))"
    by (simp add: s h)
qed

lemma in_run_keywords_raw:
  "(z, h) \<in> set (run keywords_sec_re (s, g))
     \<longleftrightarrow> (\<exists>t1. s = bsl # ''section'' @ t1 \<and> (\<exists>u t2. t1 = u @ t2 \<and> (\<forall>c \<in> set u. c = bsl) \<and>
          (\<exists>t3. t2 = bsl # ''{'' @ t3 \<and> (\<exists>a t4. t3 = a # t4 \<and> a \<in> set ''Kk'' \<and>
          (\<exists>t5. t4 = ''eyword'' @ t5 \<and>
            ((z, h) \<in> set (run (cat [Rep DotAll 0 None False, Lit (bsl # ''}''),
                 Rep DotAll 0 None False, Ahead delim_re]) (t5, g))
             \<or> (\<exists>c t. t5 = c # t \<and> c = CHR ''s'' \<and>
                 (z, h) \<in> set (run (cat [Rep DotAll 0 None False, Lit (bsl # ''}''),
                 Rep DotAll 0 None False, Ahead delim_re]) (t, g)))))))))"
  unfolding keywords_sec_re_def in_cat_Lit in_cat_star in_cat_One in_cat_opt atom_ok.simps
  by simp

lemma in_run_keywords_tail:
  "(z, h) \<in> set (run (cat [Rep DotAll 0 None False, Lit (bsl # ''}''),
       Rep DotAll 0 None False, Ahead delim_re]) (t, g))
     \<longleftrightarrow> (\<exists>w1 w2. t = w1 @ bsl # ''}'' @ w2 @ z) \<and> is_delim z \<and> h = g"
  unfolding in_cat run_delim atom_ok.simps by auto

lemma in_run_keywords:
  "(z, h) \<in> set (run keywords_sec_re (s, g))
     \<longleftrightarrow> h = g \<and> (\<exists>K w1 w2. keywords_head K \<and> s = K @ w1 @ bsl # ''}'' @ w2 @ z \<and> is_delim z)"
proof (intro iffI)
  assume "(z, h) \<in> set (run keywords_sec_re (s, g))"
  then obtain t1 u t2 t3 a t4 t5 where
    1: "s = bsl # ''section'' @ t1" and 2: "t1 = u @ t2" and u: "\<forall>c \<in> set u. c = bsl"
    and 3: "t2 = bsl # ''{'' @ t3" and 4: "t3 = a # t4" and a: "a \<in> set ''Kk''"
    and 5: "t4 = ''eyword'' @ t5"
    and 6: "((\<exists>w1 w2. t5 = w1 @ bsl # ''}'' @ w2 @ z) \<and> is_delim z \<and> h = g)
         \<or> (\<exists>c t. t5 = c # t \<and> c = CHR ''s'' \<and>
               (\<exists>w1 w2. t = w1 @ bsl # ''}'' @ w2 @ z) \<and> is_delim z \<and> h = g)"
    unfolding in_run_keywords_raw in_run_keywords_tail by (elim exE conjE) simp
  from 6 obtain w1 w2 where 7: "t5 = w1 @ bsl # ''}'' @ w2 @ z" and d: "is_delim z" and h: "h = g"
  proof (elim disjE exE conjE)
    fix w1 w2 assume "t5 = w1 @ bsl # ''}'' @ w2 @ z" "is_delim z" "h = g"
    then show ?thesis by (rule that)
  next
    fix c t w1 w2 assume "t5 = c # t" "t = w1 @ bsl # ''}'' @ w2 @ z" "is_delim z" "h = g"
    then have "t5 = (c # w1) @ bsl # ''}'' @ w2 @ z" by simp
    then show ?thesis using \<open>is_delim z\<close> \<open>h = g\<close> by (rule that)
  qed
  have "keywords_head (bsl # ''section'' @ u @ bsl # ''{'' @ a # ''eyword'')"
    unfolding keywords_head_def using u a by blast
  moreover have "s = (bsl # ''section'' @ u @ bsl # ''{'' @ a # ''eyword'') @ w1 @ bsl # ''}'' @ w2 @ z"
    by (simp add: 1 2 3 4 5 7)
  ultimately show "h = g \<and> (\<exists>K w1 w2. keywords_head K \<and> s = K @ w1 @ bsl # ''}'' @ w2 @ z
      \<and> is_delim z)"
    using d h by blast
next
  assume "h = g \<and> (\<exists>K w1 w2. keywords_head K \<and> s = K @ w1 @ bsl # ''}'' @ w2 @ z \<and> is_delim z)"
  then obtain u a w1 w2 where
    s: "s = (bsl # ''section'' @ u @ bsl # ''{'' @ a # ''eyword'') @ w1 @ bsl # ''}'' @ w2 @ z"
    and u: "\<forall>c \<in> set u. c = bsl" and a: "a \<in> set ''Kk''" and d: "is_delim z" and h: "h = g"
    unfolding keywords_head_def by (elim exE conjE) simp
  have m6: "(z, g) \<in> set (run (cat [Rep DotAll 0 None False, Lit (bsl # ''}''),
       Rep DotAll 0 None False, Ahead delim_re]) (w1 @ bsl # ''}'' @ w2 @ z, g))"
    unfolding in_run_keywords_tail using d by blast
  have m5: "(z, g) \<in> set (run (cat [Rep (Chr CHR ''s'') 0 (Some 1) True,
       Rep DotAll 0 None False, Lit (bsl # ''}''),
       Rep DotAll 0 None False, Ahead delim_re]) (w1 @ bsl # ''}'' @ w2 @ z, g))"
    unfolding in_cat_opt using m6 by (rule disjI1)
  have m4: "(z, g) \<in> set (run (cat [Lit ''eyword'', Rep (Chr CHR ''s'') 0 (Some 1) True,
       Rep DotAll 0 None False, Lit (bsl # ''}''),
       Rep DotAll 0 None False, Ahead delim_re]) (''eyword'' @ w1 @ bsl # ''}'' @ w2 @ z, g))"
    unfolding in_cat_Lit using m5 by blast
  have m3: "(z, g) \<in> set (run (cat [One (OneOf ''Kk''), Lit ''eyword'',
       Rep (Chr CHR ''s'') 0 (Some 1) True, Rep DotAll 0 None False, Lit (bsl # ''}''),
       Rep DotAll 0 None False, Ahead delim_re])
       (a # ''eyword'' @ w1 @ bsl # ''}'' @ w2 @ z, g))"
    unfolding in_cat_One atom_ok.simps using m4 a by blast
  have m2: "(z, g) \<in> set (run (cat [Lit (bsl # ''{''), One (OneOf ''Kk''), Lit ''eyword'',
       Rep (Chr CHR ''s'') 0 (Some 1) True, Rep DotAll 0 None False, Lit (bsl # ''}''),
       Rep DotAll 0 None False, Ahead delim_re])
       ((bsl # ''{'') @ a # ''eyword'' @ w1 @ bsl # ''}'' @ w2 @ z, g))"
    unfolding in_cat_Lit using m3 by blast
  have m1: "(z, g) \<in> set (run (cat [Rep (Chr bsl) 0 None False, Lit (bsl # ''{''),
       One (OneOf ''Kk''), Lit ''eyword'',
       Rep (Chr CHR ''s'') 0 (Some 1) True, Rep DotAll 0 None False, Lit (bsl # ''}''),
       Rep DotAll 0 None False, Ahead delim_re])
       (u @ (bsl # ''{'') @ a # ''eyword'' @ w1 @ bsl # ''}'' @ w2 @ z, g))"
    unfolding in_cat_star atom_ok.simps using m2 u by blast
  have m0: "(z, g) \<in> set (run keywords_sec_re
       ((bsl # ''section'') @ u @ (bsl # ''{'') @ a # ''eyword'' @ w1 @ bsl # ''}'' @ w2 @ z, g))"
    unfolding keywords_sec_re_def in_cat_Lit using m1 by blast
  then show "(z, h) \<in> set (run keywords_sec_re (s, g))"
    by (simp add: s h)
qed

subsection \<open>Where a match begins and ends\<close>

lemma abstract_head_nonempty: "abstract_head H \<Longrightarrow> H \<noteq> []"
  by (auto simp: abstract_head_def)

lemma keywords_head_nonempty: "keywords_head K \<Longrightarrow> K \<noteq> []"
  by (auto simp: keywords_head_def)

lemma hit_abstract_iff:
  "hit abstract_sec_re s \<noteq> None \<longleftrightarrow> (\<exists>H w. abstract_head H \<and> s = H @ w)"
proof
  assume "hit abstract_sec_re s \<noteq> None"
  then obtain rest g where "(rest, g) \<in> set (run abstract_sec_re (s, []))"
    using hit_in by fastforce
  then show "\<exists>H w. abstract_head H \<and> s = H @ w"
    unfolding in_run_abstract by blast
next
  assume "\<exists>H w. abstract_head H \<and> s = H @ w"
  then obtain H w where H: "abstract_head H" "s = H @ w" by blast
  then have "([], []) \<in> set (run abstract_sec_re (s, []))"
    unfolding in_run_abstract by (auto simp: is_delim_def)
  then have ne: "run abstract_sec_re (s, []) \<noteq> []" by auto
  have "length z < length s" if "(z, g) \<in> set (run abstract_sec_re (s, []))" for z g
  proof -
    from that obtain H' w' where "abstract_head H'" "s = H' @ w' @ z"
      unfolding in_run_abstract by blast
    then show ?thesis using abstract_head_nonempty [of H'] by (cases H') auto
  qed
  then have "\<forall>(z, g) \<in> set (run abstract_sec_re (s, [])). length z < length s"
    by auto
  with ne show "hit abstract_sec_re s \<noteq> None" by (rule hit_SomeI)
qed

lemma hit_keywords_iff:
  "hit keywords_sec_re s \<noteq> None
     \<longleftrightarrow> (\<exists>K w1 w2. keywords_head K \<and> s = K @ w1 @ bsl # ''}'' @ w2)"
proof
  assume "hit keywords_sec_re s \<noteq> None"
  then obtain rest g where "(rest, g) \<in> set (run keywords_sec_re (s, []))"
    using hit_in by fastforce
  then obtain K w1 w2 where "keywords_head K" "s = K @ w1 @ bsl # ''}'' @ (w2 @ rest)"
    unfolding in_run_keywords by auto
  then show "\<exists>K w1 w2. keywords_head K \<and> s = K @ w1 @ bsl # ''}'' @ w2"
    by blast
next
  assume "\<exists>K w1 w2. keywords_head K \<and> s = K @ w1 @ bsl # ''}'' @ w2"
  then obtain K w1 w2 where K: "keywords_head K" "s = K @ w1 @ bsl # ''}'' @ w2 @ []" by auto
  then have "([], []) \<in> set (run keywords_sec_re (s, []))"
    unfolding in_run_keywords by (auto simp: is_delim_def)
  then have ne: "run keywords_sec_re (s, []) \<noteq> []" by auto
  have "length z < length s" if "(z, g) \<in> set (run keywords_sec_re (s, []))" for z g
  proof -
    from that obtain K' v1 v2 where "keywords_head K'" "s = K' @ v1 @ bsl # ''}'' @ v2 @ z"
      unfolding in_run_keywords by blast
    then show ?thesis using keywords_head_nonempty [of K'] by (cases K') auto
  qed
  then have "\<forall>(z, g) \<in> set (run keywords_sec_re (s, [])). length z < length s"
    by auto
  with ne show "hit keywords_sec_re s \<noteq> None" by (rule hit_SomeI)
qed

lemma hit_abstract_delim: "hit abstract_sec_re s = Some rest \<Longrightarrow> is_delim rest"
  using hit_in [of abstract_sec_re s rest] unfolding in_run_abstract by blast

lemma hit_keywords_delim: "hit keywords_sec_re s = Some rest \<Longrightarrow> is_delim rest"
  using hit_in [of keywords_sec_re s rest] unfolding in_run_keywords by blast

lemma is_delim_weak: "is_delim z \<Longrightarrow> weak_delim z"
  unfolding is_delim_def weak_delim_def startswith_iff by auto

subsection \<open>A match cannot begin before a deletion and end after it\<close>

lemma nobs_Cons_other: "c \<noteq> bsl \<Longrightarrow> nobs (c # x) = nobs x"
  by (cases x) simp_all

lemma nobs_bsl_run:
  "\<forall>c \<in> set u. c = bsl \<Longrightarrow> nobs (u @ bsl # d # r) = nobs (bsl # d # r)"
proof (induction u)
  case Nil
  then show ?case by simp
next
  case (Cons a u)
  then have a: "a = bsl" and IH: "nobs (u @ bsl # d # r) = nobs (bsl # d # r)" by simp_all
  show ?case
  proof (cases u)
    case Nil
    then show ?thesis by (simp add: a)
  next
    case (Cons b u')
    with Cons.prems have "b = bsl" by simp
    with Cons IH show ?thesis by (simp add: a)
  qed
qed

lemma nobs_bad: "d \<in> set ''spe'' \<Longrightarrow> \<not> nobs (u @ bsl # d # t)"
proof (induction u)
  case Nil
  then show ?case by simp
next
  case (Cons a u)
  then show ?case by (cases u) auto
qed

lemma abstract_head_shape:
  assumes "abstract_head H"
  shows "H \<noteq> [] \<and> nobs (tl H) \<and> last H = CHR ''}''"
proof -
  from assms obtain u a where H: "H = bsl # ''section'' @ u @ bsl # ''{'' @ a # ''bstract'' @ bsl # ''}''"
    and u: "\<forall>c \<in> set u. c = bsl" by (auto simp: abstract_head_def)
  have "nobs (u @ bsl # CHR ''{'' # a # ''bstract'' @ bsl # ''}'')"
    unfolding nobs_bsl_run [OF u] by simp
  then have "nobs (tl H)" by (simp add: H nobs_Cons_other)
  moreover have "last H = CHR ''}''" by (simp add: H)
  ultimately show ?thesis by (simp add: H)
qed

lemma keywords_head_shape:
  assumes "keywords_head K"
  shows "K \<noteq> [] \<and> nobs (tl K) \<and> last K = CHR ''d''"
proof -
  from assms obtain u a where K: "K = bsl # ''section'' @ u @ bsl # ''{'' @ a # ''eyword''"
    and u: "\<forall>c \<in> set u. c = bsl" and a: "a \<in> set ''Kk''"
    by (auto simp: keywords_head_def)
  have "nobs (u @ bsl # CHR ''{'' # a # ''eyword'')"
    unfolding nobs_bsl_run [OF u] using a by auto
  then have "nobs (tl K)" by (simp add: K nobs_Cons_other)
  moreover have "last K = CHR ''d''" by (simp add: K)
  ultimately show ?thesis by (simp add: K)
qed

lemma no_straddle:
  assumes H: "H \<noteq> []" "nobs (tl H)" "last H \<noteq> bsl" "last H \<noteq> LF"
    and eq: "H @ rest = u @ y" and u: "u \<noteq> []" and y: "weak_delim y"
  shows "\<exists>t. u = H @ t \<and> rest = t @ y"
proof -
  from eq consider t where "H = u @ t" "t @ rest = y" "t \<noteq> []"
    | t where "H @ t = u" "rest = t @ y"
    unfolding append_eq_append_conv2 by (metis append_Nil2 append_Nil)
  then show ?thesis
  proof cases
    case 1
    from 1(2,3) y have "t = [LF] \<or> (\<exists>c z. y = bsl # c # z \<and> c \<in> set ''spe'')"
      unfolding weak_delim_def by (auto simp: append_eq_Cons_conv)
    then show ?thesis
    proof
      assume "t = [LF]"
      with 1(1) H(4) show ?thesis by simp
    next
      assume "\<exists>c z. y = bsl # c # z \<and> c \<in> set ''spe''"
      then obtain c z where yz: "y = bsl # c # z" and c: "c \<in> set ''spe''" by blast
      from 1(2,3) yz have "t = [bsl] \<or> (\<exists>t'. t = bsl # c # t')"
        by (cases t; cases "tl t") auto
      then show ?thesis
      proof
        assume "t = [bsl]"
        with 1(1) H(3) show ?thesis by simp
      next
        assume "\<exists>t'. t = bsl # c # t'"
        then obtain t' where "t = bsl # c # t'" by blast
        with 1(1) u have "tl H = tl u @ bsl # c # t'" by (cases u) auto
        with nobs_bad [OF c] H(2) show ?thesis by simp
      qed
    qed
  next
    case 2
    then show ?thesis by blast
  qed
qed

lemma abstract_straddle:
  assumes "u \<noteq> []" "weak_delim y" "hit abstract_sec_re (u @ y) \<noteq> None"
  shows "hit abstract_sec_re (u @ x) \<noteq> None"
proof -
  from assms(3) obtain H w where H: "abstract_head H" "u @ y = H @ w"
    unfolding hit_abstract_iff by blast
  from abstract_head_shape [OF H(1)] have "H \<noteq> []" "nobs (tl H)" "last H \<noteq> bsl" "last H \<noteq> LF"
    by simp_all
  from no_straddle [OF this H(2) [symmetric] assms(1,2)] obtain t where "u = H @ t" by blast
  then have "u @ x = H @ (t @ x)" by simp
  with H(1) show ?thesis unfolding hit_abstract_iff by blast
qed

lemma keywords_straddle:
  assumes "u \<noteq> []" "weak_delim y" "hit keywords_sec_re (u @ y) \<noteq> None"
    and "hit keywords_sec_re x \<noteq> None"
  shows "hit keywords_sec_re (u @ x) \<noteq> None"
proof -
  from assms(3) obtain K w where K: "keywords_head K" "u @ y = K @ w"
    unfolding hit_keywords_iff by blast
  from keywords_head_shape [OF K(1)] have "K \<noteq> []" "nobs (tl K)" "last K \<noteq> bsl" "last K \<noteq> LF"
    by simp_all
  from no_straddle [OF this K(2) [symmetric] assms(1,2)] obtain t where t: "u = K @ t" by blast
  from assms(4) obtain K' w1 w2 where "x = K' @ w1 @ bsl # ''}'' @ w2"
    unfolding hit_keywords_iff by blast
  with t have "u @ x = K @ (t @ K' @ w1) @ bsl # ''}'' @ w2" by simp
  with K(1) show ?thesis unfolding hit_keywords_iff by blast
qed

subsection \<open>What one pass leaves behind\<close>

lemma section_pattern_abstract: "section_pattern abstract_sec_re"
proof -
  have "\<exists>z. s = bsl # CHR ''s'' # z" if "hit abstract_sec_re s \<noteq> None" for s
  proof -
    from that obtain H w where H: "abstract_head H" "s = H @ w"
      unfolding hit_abstract_iff by blast
    from H(1) obtain t where "H = bsl # CHR ''s'' # t"
      unfolding abstract_head_def by fastforce
    with H(2) have "s = bsl # CHR ''s'' # (t @ w)" by simp
    then show ?thesis by blast
  qed
  then show ?thesis
    unfolding section_pattern_def using hit_abstract_delim by blast
qed

lemma section_pattern_keywords: "section_pattern keywords_sec_re"
proof -
  have "\<exists>z. s = bsl # CHR ''s'' # z" if "hit keywords_sec_re s \<noteq> None" for s
  proof -
    from that obtain K w where K: "keywords_head K" "s = K @ w"
      unfolding hit_keywords_iff by blast
    from K(1) obtain t where "K = bsl # CHR ''s'' # t"
      unfolding keywords_head_def by fastforce
    with K(2) have "s = bsl # CHR ''s'' # (t @ w)" by simp
    then show ?thesis by blast
  qed
  then show ?thesis
    unfolding section_pattern_def using hit_keywords_delim by blast
qed

lemma joins_abstract: "joins_safely abstract_sec_re r'"
  unfolding joins_safely_def using abstract_straddle by blast

lemma joins_keywords: "joins_safely keywords_sec_re keywords_sec_re"
  unfolding joins_safely_def using keywords_straddle by blast

text \<open>After a deletion the text goes on with a section command, or ends.\<close>

lemma sub_weak_delim:
  assumes r: "section_pattern r"
  shows "is_delim x \<Longrightarrow> weak_delim (re_sub_empty r x)"
proof (induction "length x" arbitrary: x rule: less_induct)
  case less
  show ?case
  proof (cases x)
    case Nil
    then show ?thesis by (simp add: weak_delim_def)
  next
    case (Cons c cs)
    show ?thesis
    proof (cases "hit r x")
      case (Some rest)
      with r have "is_delim rest" "length rest < length x"
        by (auto simp: section_pattern_def dest: hit_shorter)
      with less.hyps have "weak_delim (re_sub_empty r rest)" by blast
      with Some Cons show ?thesis by (simp add: re_sub_empty_step)
    next
      case None
      then have sub: "re_sub_empty r x = c # re_sub_empty r cs"
        by (simp add: Cons re_sub_empty_step)
      from less.prems have "weak_delim x" by (rule is_delim_weak)
      with Cons consider "c = LF" "cs = []"
        | d z where "c = bsl" "cs = d # z" "d \<in> set ''spe''"
        by (auto simp: weak_delim_def)
      then show ?thesis
      proof cases
        case 1
        with sub show ?thesis by (simp add: weak_delim_def)
      next
        case 2
        have "hit r cs = None"
        proof (rule ccontr)
          assume "hit r cs \<noteq> None"
          with r obtain z' where "cs = bsl # CHR ''s'' # z'"
            unfolding section_pattern_def by blast
          with 2 show False by auto
        qed
        then have "re_sub_empty r cs = d # re_sub_empty r z"
          by (simp add: 2 re_sub_empty_step)
        with sub 2 show ?thesis by (simp add: weak_delim_def)
      qed
    qed
  qed
qed

text \<open>A pass either changes nothing, or keeps a prefix up to its first match and goes on
  after the deletion with a section command or the end.\<close>

lemma sub_shape:
  assumes r: "section_pattern r"
  shows "re_sub_empty r s = s
     \<or> (\<exists>p x y. s = p @ x \<and> re_sub_empty r s = p @ y \<and> hit r x \<noteq> None \<and> weak_delim y)"
proof (induction s)
  case Nil
  then show ?case by simp
next
  case (Cons c cs)
  show ?case
  proof (cases "hit r (c # cs)")
    case (Some rest)
    with r have "is_delim rest" by (auto simp: section_pattern_def)
    then have "weak_delim (re_sub_empty r rest)" by (rule sub_weak_delim [OF r])
    moreover have "re_sub_empty r (c # cs) = [] @ re_sub_empty r rest"
      using Some by (simp add: re_sub_empty_step)
    moreover have "c # cs = [] @ (c # cs)" by simp
    ultimately show ?thesis using Some by blast
  next
    case None
    then have sub: "re_sub_empty r (c # cs) = c # re_sub_empty r cs"
      by (simp add: re_sub_empty_step)
    from Cons.IH show ?thesis
    proof
      assume "re_sub_empty r cs = cs"
      with sub show ?thesis by simp
    next
      assume "\<exists>p x y. cs = p @ x \<and> re_sub_empty r cs = p @ y \<and> hit r x \<noteq> None \<and> weak_delim y"
      then obtain p x y where "cs = p @ x" "re_sub_empty r cs = p @ y" "hit r x \<noteq> None"
        "weak_delim y" by blast
      with sub have "c # cs = (c # p) @ x" "re_sub_empty r (c # cs) = (c # p) @ y" by simp_all
      with \<open>hit r x \<noteq> None\<close> \<open>weak_delim y\<close> show ?thesis by blast
    qed
  qed
qed

lemma hit_after_pass:
  assumes "joins_safely r r'" "section_pattern r'" "hit r (c # cs) = None"
  shows "hit r (c # re_sub_empty r' cs) = None"
proof -
  from sub_shape [OF assms(2), of cs] show ?thesis
  proof
    assume "re_sub_empty r' cs = cs"
    with assms(3) show ?thesis by simp
  next
    assume "\<exists>p x y. cs = p @ x \<and> re_sub_empty r' cs = p @ y \<and> hit r' x \<noteq> None \<and> weak_delim y"
    then obtain p x y where p: "cs = p @ x" "re_sub_empty r' cs = p @ y" "hit r' x \<noteq> None"
      "weak_delim y" by blast
    show ?thesis
    proof (rule ccontr)
      assume "hit r (c # re_sub_empty r' cs) \<noteq> None"
      then have "hit r ((c # p) @ y) \<noteq> None" by (simp add: p(2))
      with assms(1) p(3,4) have "hit r ((c # p) @ x) \<noteq> None"
        unfolding joins_safely_def by blast
      with assms(3) p(1) show False by simp
    qed
  qed
qed

lemma clean_after_own_pass:
  assumes "joins_safely r r" "section_pattern r"
  shows "clean r (re_sub_empty r s)"
proof (induction "length s" arbitrary: s rule: less_induct)
  case less
  show ?case
  proof (cases s)
    case Nil
    then show ?thesis by simp
  next
    case (Cons c cs)
    show ?thesis
    proof (cases "hit r s")
      case (Some rest)
      then have "length rest < length s" by (rule hit_shorter)
      with less.hyps have "clean r (re_sub_empty r rest)" by blast
      with Some Cons show ?thesis by (simp add: re_sub_empty_step)
    next
      case None
      have "clean r (re_sub_empty r cs)" using less.hyps [of cs] Cons by simp
      moreover have "hit r (c # re_sub_empty r cs) = None"
        using hit_after_pass [OF assms] None Cons by simp
      ultimately show ?thesis using None Cons by (simp add: re_sub_empty_step clean_Cons)
    qed
  qed
qed

lemma clean_after_other_pass:
  assumes "joins_safely r r'" "section_pattern r'"
  shows "clean r s \<Longrightarrow> clean r (re_sub_empty r' s)"
proof (induction "length s" arbitrary: s rule: less_induct)
  case less
  show ?case
  proof (cases s)
    case Nil
    then show ?thesis by simp
  next
    case (Cons c cs)
    show ?thesis
    proof (cases "hit r' s")
      case (Some rest)
      then have len: "length rest < length s" by (rule hit_shorter)
      from Some obtain u where "s = u @ rest" using hit_suffix by blast
      with less.prems have "clean r rest" using clean_suffix by blast
      with less.hyps len have "clean r (re_sub_empty r' rest)" by blast
      with Some Cons show ?thesis by (simp add: re_sub_empty_step)
    next
      case None
      from less.prems Cons have c: "hit r (c # cs) = None" "clean r cs"
        by (simp_all add: clean_Cons)
      have "clean r (re_sub_empty r' cs)" using less.hyps [of cs] Cons c(2) by simp
      moreover have "hit r (c # re_sub_empty r' cs) = None"
        using hit_after_pass [OF assms c(1)] .
      ultimately show ?thesis using None Cons by (simp add: re_sub_empty_step clean_Cons)
    qed
  qed
qed

text \<open>
  Claim C9. The Body Sanitizer is idempotent: after the two passes no match of either
  pattern is left, so a second application changes nothing.
\<close>

theorem strip_abstract_keywords_idempotent:
  "strip_abstract_keywords_from_latex (strip_abstract_keywords_from_latex t)
     = strip_abstract_keywords_from_latex t"
proof -
  define v where "v = re_sub_empty abstract_sec_re t"
  define w where "w = re_sub_empty keywords_sec_re v"
  have "clean abstract_sec_re v"
    unfolding v_def
    by (rule clean_after_own_pass [OF joins_abstract section_pattern_abstract])
  then have a: "clean abstract_sec_re w"
    unfolding w_def
    by (rule clean_after_other_pass [OF joins_abstract section_pattern_keywords])
  have k: "clean keywords_sec_re w"
    unfolding w_def
    by (rule clean_after_own_pass [OF joins_keywords section_pattern_keywords])
  have "re_sub_empty keywords_sec_re (re_sub_empty abstract_sec_re w) = w"
    by (simp add: clean_id [OF a] clean_id [OF k])
  then show ?thesis
    by (simp add: strip_abstract_keywords_from_latex_def v_def w_def)
qed

text \<open>
  What the patterns match as \<^verbatim>\<open>re\<close> reads them: a heading written with a backslash in
  front of each brace is deleted with its section.
\<close>

lemma strip_deletes_escaped_heading:
  "strip_abstract_keywords_from_latex
     (''Title'' @ [LF] @ bsl # ''section'' @ bsl # ''{Abstract'' @ bsl # ''}'' @ [LF] @ ''We study x.''
        @ [LF] @ bsl # ''section{Intro}'' @ [LF] @ ''Text'')
   = ''Title'' @ [LF] @ bsl # ''section{Intro}'' @ [LF] @ ''Text''"
  by code_simp

subsection \<open>Headings that are not removed\<close>

text \<open>
  Claim C3 says that a section whose heading command has the argument \<^verbatim>\<open>abstract\<close>, or an
  argument that begins with \<^verbatim>\<open>keyword\<close>, is removed with its content up to the next
  section-level command, so that the output differs from the input. The code does not do
  this: in both patterns the backslashes are doubled inside a raw string, \<^verbatim>\<open>re\<close> asks for
  a backslash in front of each brace, and the heading \<^verbatim>\<open>\section{Abstract}\<close> of a typeset
  text, like the heading \<^verbatim>\<open>\section{Keywords}\<close>, stays in the body with its section.
\<close>

theorem strip_keeps_plain_heading:
  "strip_abstract_keywords_from_latex
     (bsl # ''section{Abstract}'' @ [LF] @ ''We study x.'' @ [LF] @ bsl # ''section{Intro}'')
   = bsl # ''section{Abstract}'' @ [LF] @ ''We study x.'' @ [LF] @ bsl # ''section{Intro}''
   \<and> strip_abstract_keywords_from_latex
     (bsl # ''section{Keywords}'' @ [LF] @ ''a, b'' @ [LF] @ bsl # ''section{Intro}'')
   = bsl # ''section{Keywords}'' @ [LF] @ ''a, b'' @ [LF] @ bsl # ''section{Intro}''"
  by code_simp

text \<open>
  More generally, nothing is removed from a text in which no backslash stands in front of
  an opening brace, nor from a text without the letters \<^verbatim>\<open>bstract\<close> and \<^verbatim>\<open>eyword\<close>: the
  patterns have no \<^verbatim>\<open>re.IGNORECASE\<close> and no alternative for index terms.
\<close>

lemma sublist_suffix: "sublist x v \<Longrightarrow> sublist x (u @ v)"
proof -
  assume "sublist x v"
  then obtain ps ss where "v = ps @ x @ ss" by (auto simp: sublist_def)
  then have "u @ v = (u @ ps) @ x @ ss" by simp
  then show ?thesis unfolding sublist_def by blast
qed

lemma abstract_hit_letters:
  assumes "hit abstract_sec_re v \<noteq> None"
  shows "sublist ''bstract'' v" and "sublist [bsl, CHR ''{''] v"
proof -
  from assms obtain u a w where
    v: "v = (bsl # ''section'' @ u @ bsl # ''{'' @ [a]) @ ''bstract'' @ (bsl # ''}'' @ w)"
    unfolding hit_abstract_iff abstract_head_def by auto
  then show "sublist ''bstract'' v" unfolding sublist_def by blast
  from v have "v = (bsl # ''section'' @ u) @ [bsl, CHR ''{''] @ (a # ''bstract'' @ bsl # ''}'' @ w)"
    by simp
  then show "sublist [bsl, CHR ''{''] v" unfolding sublist_def by blast
qed

lemma keywords_hit_letters:
  assumes "hit keywords_sec_re v \<noteq> None"
  shows "sublist ''eyword'' v" and "sublist [bsl, CHR ''{''] v"
proof -
  from assms obtain u a w1 w2 where
    v: "v = (bsl # ''section'' @ u @ bsl # ''{'' @ [a]) @ ''eyword'' @ (w1 @ bsl # ''}'' @ w2)"
    unfolding hit_keywords_iff keywords_head_def by auto
  then show "sublist ''eyword'' v" unfolding sublist_def by blast
  from v have "v = (bsl # ''section'' @ u) @ [bsl, CHR ''{'']
      @ (a # ''eyword'' @ w1 @ bsl # ''}'' @ w2)"
    by simp
  then show "sublist [bsl, CHR ''{''] v" unfolding sublist_def by blast
qed

lemma strip_needs_escaped_brace:
  assumes "\<not> sublist [bsl, CHR ''{''] t"
  shows "strip_abstract_keywords_from_latex t = t"
proof -
  have "clean abstract_sec_re t"
    unfolding clean_def using assms abstract_hit_letters(2) sublist_suffix by blast
  moreover have "clean keywords_sec_re t"
    unfolding clean_def using assms keywords_hit_letters(2) sublist_suffix by blast
  ultimately show ?thesis
    by (simp add: strip_abstract_keywords_from_latex_def clean_id)
qed

lemma strip_needs_heading_letters:
  assumes "\<not> sublist ''bstract'' t" "\<not> sublist ''eyword'' t"
  shows "strip_abstract_keywords_from_latex t = t"
proof -
  have "clean abstract_sec_re t"
    unfolding clean_def using assms(1) abstract_hit_letters(1) sublist_suffix by blast
  moreover have "clean keywords_sec_re t"
    unfolding clean_def using assms(2) keywords_hit_letters(1) sublist_suffix by blast
  ultimately show ?thesis
    by (simp add: strip_abstract_keywords_from_latex_def clean_id)
qed

end
